theory Spec2Isabelle
  imports Main "HOL-Library.Multiset"
begin

section \<open>Errors and machine arithmetic\<close>

text \<open>
  The tokenizer of \<^verbatim>\<open>bpe.cpp\<close> works on \<^verbatim>\<open>std::vector<int>\<close>, \<^verbatim>\<open>std::string\<close> and
  \<^verbatim>\<open>std::unordered_map\<close>. Whatever the C++ leaves undefined is a value of the model:
  a read past the end of a vector is \<open>OutOfBounds\<close>, an \<^verbatim>\<open>int\<close> incremented past
  \<^verbatim>\<open>INT_MAX\<close> is \<open>SignedOverflow\<close>, the exception of the constructor is
  \<open>InvalidArgument\<close>, a \<^verbatim>\<open>std::regex_error\<close> thrown by the regular-expression library
  is \<open>RegexError\<close>.
\<close>

datatype error = OutOfBounds | SignedOverflow | InvalidArgument | RegexError

definition size_max :: nat where
  "size_max = 2 ^ 64 - 1"

definition int_max :: int where
  "int_max = 2 ^ 31 - 1"

text \<open>
  \<^verbatim>\<open>indices.size() - 1\<close> is computed in \<^verbatim>\<open>size_t\<close>: on the empty vector it wraps
  around to the largest value of the type.
\<close>

definition size_minus_one :: "nat \<Rightarrow> nat" where
  "size_minus_one n = (if n = 0 then size_max else n - 1)"

text \<open>\<^verbatim>\<open>string_to_byte\<close>: every \<^verbatim>\<open>unsigned char\<close> of the input as an \<^verbatim>\<open>int\<close> (0..255).\<close>

definition string_to_byte :: "string \<Rightarrow> int list" where
  "string_to_byte input = map of_char input"

section \<open>The rewrite of the training step: \<^verbatim>\<open>merge_pair\<close>\<close>

text \<open>
  The \<^verbatim>\<open>while\<close> loop of \<^verbatim>\<open>merge_pair\<close>, with its index \<open>i\<close> and the vector \<open>merged\<close>
  it appends to. The read of \<^verbatim>\<open>indices[i + 1]\<close> is behind \<^verbatim>\<open>i < indices.size() - 1\<close>,
  itself behind \<^verbatim>\<open>i < indices.size()\<close>, so no read leaves the vector.
\<close>

function merge_loop :: "int list \<Rightarrow> int \<times> int \<Rightarrow> int \<Rightarrow> nat \<Rightarrow> int list \<Rightarrow> int list" where
  "merge_loop indices pair new_index i merged =
     (if i < length indices then
        (if i < size_minus_one (length indices) \<and> (indices ! i, indices ! (i + 1)) = pair
         then merge_loop indices pair new_index (i + 2) (merged @ [new_index])
         else merge_loop indices pair new_index (i + 1) (merged @ [indices ! i]))
      else merged)"
  by pat_completeness auto
termination
  by (relation "measure (\<lambda>(indices, pair, new_index, i, merged). length indices - i)") auto

declare merge_loop.simps [simp del]

definition merge_pair :: "int list \<Rightarrow> int \<times> int \<Rightarrow> int \<Rightarrow> int list" where
  "merge_pair indices pair new_index = merge_loop indices pair new_index 0 []"

text \<open>
  The rewrite as the specification words it: scan from the start; where the current pair
  is the selected pair, emit the new ID and advance two positions; otherwise emit the
  current ID and advance one position.
\<close>

fun rewrite_spec :: "int list \<Rightarrow> int \<times> int \<Rightarrow> int \<Rightarrow> int list" where
  "rewrite_spec (x # y # zs) p n =
     (if (x, y) = p then n # rewrite_spec zs p n else x # rewrite_spec (y # zs) p n)"
| "rewrite_spec [x] p n = [x]"
| "rewrite_spec [] p n = []"

section \<open>Counting pairs: \<^verbatim>\<open>most_frequent_pair\<close>\<close>

text \<open>
  \<^verbatim>\<open>counts\<close> is an \<^verbatim>\<open>unordered_map\<close> from pairs to \<^verbatim>\<open>int\<close>; it is kept as an
  association list in the order of insertion. \<^verbatim>\<open>counts[k]++\<close> inserts \<open>k\<close> with
  the value 0 when it is missing and then increments the entry, an \<^verbatim>\<open>int\<close>:
  incrementing it at \<^verbatim>\<open>INT_MAX\<close> is undefined.
\<close>

type_synonym counts = "((int \<times> int) \<times> int) list"

fun bump :: "int \<times> int \<Rightarrow> counts \<Rightarrow> error + counts" where
  "bump k [] = Inr [(k, 1)]"
| "bump k ((k', c) # rest) =
     (if k' = k then (if c = int_max then Inl SignedOverflow else Inr ((k', c + 1) # rest))
      else (case bump k rest of Inl e \<Rightarrow> Inl e | Inr rest' \<Rightarrow> Inr ((k', c) # rest')))"

text \<open>
  The counting loop \<^verbatim>\<open>for (size_t i = 0; i < indices.size() - 1; ++i)\<close>. Its bound is
  the wrapped \<^verbatim>\<open>size_t\<close> difference, and the two reads \<^verbatim>\<open>indices[i]\<close>,
  \<^verbatim>\<open>indices[i + 1]\<close> are checked against the length of the vector.
\<close>

function count_pairs :: "int list \<Rightarrow> nat \<Rightarrow> counts \<Rightarrow> error + counts" where
  "count_pairs indices i counts =
     (if i < size_minus_one (length indices) then
        (if i + 1 < length indices then
           (case bump (indices ! i, indices ! (i + 1)) counts of
              Inl e \<Rightarrow> Inl e
            | Inr counts' \<Rightarrow> count_pairs indices (i + 1) counts')
         else Inl OutOfBounds)
      else Inr counts)"
  by pat_completeness auto
termination
  by (relation "measure (\<lambda>(indices, i, counts). length indices - i)") auto

declare count_pairs.simps [simp del]

text \<open>
  \<^verbatim>\<open>std::max_element\<close> with the comparison \<^verbatim>\<open>p1.second < p2.second\<close>: the candidate
  is replaced only by a strictly greater entry, so the first greatest entry of the range
  is returned.
\<close>

fun max_element_from :: "(int \<times> int) \<times> int \<Rightarrow> counts \<Rightarrow> (int \<times> int) \<times> int" where
  "max_element_from largest [] = largest"
| "max_element_from largest (x # xs) =
     max_element_from (if snd largest < snd x then x else largest) xs"

text \<open>
  The order in which an \<^verbatim>\<open>unordered_map\<close> is iterated is left to the implementation.
  It is a parameter \<open>iter\<close> of the model, which maps the entries in insertion order to
  the entries in iteration order; \<open>iteration_order iter\<close> says that it visits every
  entry once.
\<close>

definition iteration_order :: "('a list \<Rightarrow> 'a list) \<Rightarrow> bool" where
  "iteration_order iter \<longleftrightarrow> (\<forall>xs. mset (iter xs) = mset xs)"

definition most_frequent_pair :: "(counts \<Rightarrow> counts) \<Rightarrow> int list \<Rightarrow> error + ((int \<times> int) \<times> int)" where
  "most_frequent_pair iter indices =
     (case count_pairs indices 0 [] of
        Inl e \<Rightarrow> Inl e
      | Inr counts \<Rightarrow>
          if counts = [] then Inr ((- 1, - 1), 0)
          else (case iter counts of
                  [] \<Rightarrow> Inl OutOfBounds
                | first # rest \<Rightarrow> Inr (max_element_from first rest)))"

section \<open>The tokenizer\<close>

text \<open>
  The fields of \<^verbatim>\<open>class BPETokenizer\<close>. \<^verbatim>\<open>special_to_id\<close> is iterated by \<^verbatim>\<open>encode\<close>,
  so it is an association list in insertion order; the other tables are only looked up
  and updated.
\<close>

record tokenizer =
  max_vocab_size :: int
  pairs :: "int \<times> int \<rightharpoonup> int"
  id_to_token :: "int \<rightharpoonup> string"
  next_id :: int
  special_to_id :: "(string \<times> int) list"
  id_to_special :: "int \<rightharpoonup> string"

text \<open>
  \<^verbatim>\<open>m[k]\<close> on an \<^verbatim>\<open>unordered_map\<close> returns the value stored under \<open>k\<close>; when there is
  none it first inserts a value-initialised one (\<open>d\<close>: 0 for \<^verbatim>\<open>int\<close>, the empty string
  for \<^verbatim>\<open>std::string\<close>). The map is returned with the value.
\<close>

definition map_index :: "'v \<Rightarrow> ('k \<rightharpoonup> 'v) \<Rightarrow> 'k \<Rightarrow> 'v \<times> ('k \<rightharpoonup> 'v)" where
  "map_index d m k = (case m k of Some v \<Rightarrow> (v, m) | None \<Rightarrow> (d, m(k \<mapsto> d)))"

definition alist_index :: "('k \<times> int) list \<Rightarrow> 'k \<Rightarrow> int \<times> ('k \<times> int) list" where
  "alist_index m k = (case map_of m k of Some v \<Rightarrow> (v, m) | None \<Rightarrow> (0, m @ [(k, 0)]))"

text \<open>
  \<^verbatim>\<open>reset\<close>: the 256 one-byte tokens (the loop \<^verbatim>\<open>id_to_token[i] = std::string(1, i)\<close>
  for \<open>i\<close> from 0 to 255, on the cleared table), the counter at 256, nothing else.
\<close>

definition reset :: "tokenizer \<Rightarrow> tokenizer" where
  "reset s = s\<lparr>pairs := Map.empty,
               id_to_token := (\<lambda>i. if 0 \<le> i \<and> i < 256 then Some [char_of i] else None),
               next_id := 256,
               special_to_id := [],
               id_to_special := Map.empty\<rparr>"

text \<open>
  The constructor stores \<^verbatim>\<open>max_vocab_size\<close>, throws \<^verbatim>\<open>std::invalid_argument\<close> when it
  is at most 256, and calls \<^verbatim>\<open>reset\<close>, which writes every other field.
\<close>

definition fresh_tokenizer :: "int \<Rightarrow> tokenizer" where
  "fresh_tokenizer m =
     reset \<lparr>max_vocab_size = m, pairs = Map.empty, id_to_token = Map.empty,
            next_id = 0, special_to_id = [], id_to_special = Map.empty\<rparr>"

definition construct :: "int \<Rightarrow> error + tokenizer" where
  "construct m = (if m \<le> 256 then Inl InvalidArgument else Inr (fresh_tokenizer m))"

definition vocab_size :: "tokenizer \<Rightarrow> int" where
  "vocab_size s = next_id s"

text \<open>
  \<^verbatim>\<open>register_special_token\<close>. The counter is an \<^verbatim>\<open>int\<close>: incrementing it at
  \<^verbatim>\<open>INT_MAX\<close> is undefined.
\<close>

definition register_special_token :: "tokenizer \<Rightarrow> string \<Rightarrow> error + tokenizer" where
  "register_special_token s token =
     (if map_of (special_to_id s) token = None then
        (if next_id s = int_max then Inl SignedOverflow
         else Inr (s\<lparr>special_to_id := special_to_id s @ [(token, next_id s)],
                     id_to_special := (id_to_special s)(next_id s \<mapsto> token),
                     next_id := next_id s + 1\<rparr>))
      else Inr s)"

section \<open>Training\<close>

text \<open>
  One accepted merge of \<^verbatim>\<open>train\<close>, after the rewrite of the sequence: the new token is
  \<^verbatim>\<open>id_to_token[pair.first] + id_to_token[pair.second]\<close> (two reads with
  \<^verbatim>\<open>operator[]\<close>), the rule and the token are stored under the counter \<^verbatim>\<open>next_id\<close>,
  and the counter is incremented. The increment stays below \<^verbatim>\<open>max_vocab_size\<close>, an
  \<^verbatim>\<open>int\<close>, so it cannot overflow.
\<close>

definition record_merge :: "tokenizer \<Rightarrow> int \<times> int \<Rightarrow> tokenizer \<times> string" where
  "record_merge s pair =
     (let (t1, m1) = map_index [] (id_to_token s) (fst pair);
          (t2, m2) = map_index [] m1 (snd pair);
          new_token = t1 @ t2
      in (s\<lparr>pairs := (pairs s)(pair \<mapsto> next_id s),
            id_to_token := m2(next_id s \<mapsto> new_token),
            next_id := next_id s + 1\<rparr>, new_token))"

lemma record_merge_next_id [simp]: "next_id (fst (record_merge s pair)) = next_id s + 1"
  by (simp add: record_merge_def Let_def split: prod.splits)

lemma record_merge_max [simp]: "max_vocab_size (fst (record_merge s pair)) = max_vocab_size s"
  by (simp add: record_merge_def Let_def split: prod.splits)

text \<open>
  A merge event is what the verbose output of \<^verbatim>\<open>train\<close> prints for an accepted merge:
  the pair, the new ID and the new token.
\<close>

type_synonym merge_event = "(int \<times> int) \<times> int \<times> string"

text \<open>
  The \<^verbatim>\<open>while (vocab_size() < max_vocab_size)\<close> loop of \<^verbatim>\<open>train\<close>, on the tokenizer and
  the local vector \<^verbatim>\<open>indices\<close>; it returns the tokenizer and the accepted merges in order.
\<close>

function train_loop ::
  "(counts \<Rightarrow> counts) \<Rightarrow> bool \<Rightarrow> tokenizer \<Rightarrow> int list \<Rightarrow> error + (tokenizer \<times> merge_event list)" where
  "train_loop iter stop_early s indices =
     (if vocab_size s < max_vocab_size s then
        (case most_frequent_pair iter indices of
           Inl e \<Rightarrow> Inl e
         | Inr (pair, cnt) \<Rightarrow>
             if fst pair = - 1 \<and> snd pair = - 1 then Inr (s, [])
             else if stop_early \<and> cnt = 1 then Inr (s, [])
             else (case train_loop iter stop_early (fst (record_merge s pair))
                          (merge_pair indices pair (next_id s)) of
                     Inl e \<Rightarrow> Inl e
                   | Inr (s', events) \<Rightarrow>
                       Inr (s', (pair, next_id s, snd (record_merge s pair)) # events)))
      else Inr (s, []))"
  by pat_completeness auto
termination
  by (relation "measure (\<lambda>(iter, stop_early, s, indices). nat (max_vocab_size s - next_id s))")
     (auto simp: vocab_size_def)

declare train_loop.simps [simp del]

definition train ::
  "(counts \<Rightarrow> counts) \<Rightarrow> tokenizer \<Rightarrow> string \<Rightarrow> bool \<Rightarrow> error + (tokenizer \<times> merge_event list)" where
  "train iter s input stop_early = train_loop iter stop_early s (string_to_byte input)"

section \<open>Encoding\<close>

text \<open>\<^verbatim>\<open>indices.erase(indices.begin() + i)\<close>.\<close>

definition erase_at :: "nat \<Rightarrow> 'a list \<Rightarrow> 'a list" where
  "erase_at i xs = take i xs @ drop (i + 1) xs"

lemma length_erase_at [simp]: "i < length xs \<Longrightarrow> length (erase_at i xs) = length xs - 1"
  by (simp add: erase_at_def)

text \<open>
  One pass of the \<^verbatim>\<open>for\<close> loop of \<^verbatim>\<open>_encode_non_special\<close>, on the vector it rewrites
  in place. The bound \<^verbatim>\<open>indices.size() - 1\<close> is read again at every turn, in \<^verbatim>\<open>size_t\<close>;
  a known pair at \<open>i\<close> has its ID written to \<^verbatim>\<open>indices[i]\<close> (read with
  \<^verbatim>\<open>pairs[pair]\<close>) and the element at \<open>i + 1\<close> erased, and the loop goes on at \<open>i + 1\<close>.
\<close>

function encode_pass ::
  "(int \<times> int \<rightharpoonup> int) \<Rightarrow> int list \<Rightarrow> nat \<Rightarrow> bool \<Rightarrow> error + ((int \<times> int \<rightharpoonup> int) \<times> int list \<times> bool)" where
  "encode_pass ps indices i changes_made =
     (if i < size_minus_one (length indices) then
        (if i + 1 < length indices then
           (if ps (indices ! i, indices ! (i + 1)) \<noteq> None then
              encode_pass (snd (map_index 0 ps (indices ! i, indices ! (i + 1))))
                (erase_at (i + 1) (indices[i := fst (map_index 0 ps (indices ! i, indices ! (i + 1)))]))
                (i + 1) True
            else encode_pass ps indices (i + 1) changes_made)
         else Inl OutOfBounds)
      else Inr (ps, indices, changes_made))"
  by pat_completeness auto
termination
  by (relation "measure (\<lambda>(ps, indices, i, changes_made). length indices - i)") auto

declare encode_pass.simps [simp del]

lemma encode_pass_length:
  "encode_pass ps indices i ch = Inr (ps', indices', ch') \<Longrightarrow>
     length indices' \<le> length indices \<and> (ch' \<and> \<not> ch \<longrightarrow> length indices' < length indices)"
proof (induction ps indices i ch rule: encode_pass.induct)
  case (1 ps indices i changes_made)
  from "1.prems" show ?case
    apply (subst (asm) encode_pass.simps)
    apply (simp split: if_splits)
    subgoal using "1.IH"(1) by fastforce
    subgoal using "1.IH"(2) by fastforce
    done
qed

text \<open>The \<^verbatim>\<open>do ... while (changes_made)\<close> loop around the pass.\<close>

function encode_fix ::
  "(int \<times> int \<rightharpoonup> int) \<Rightarrow> int list \<Rightarrow> error + ((int \<times> int \<rightharpoonup> int) \<times> int list)" where
  "encode_fix ps indices =
     (case encode_pass ps indices 0 False of
        Inl e \<Rightarrow> Inl e
      | Inr (ps', indices', changes_made) \<Rightarrow>
          if changes_made then encode_fix ps' indices' else Inr (ps', indices'))"
  by pat_completeness auto
termination
  by (relation "measure (\<lambda>(ps, indices). length indices)")
     (auto dest: encode_pass_length)

declare encode_fix.simps [simp del]

definition encode_non_special :: "tokenizer \<Rightarrow> string \<Rightarrow> error + (int list \<times> tokenizer)" where
  "encode_non_special s input =
     (case encode_fix (pairs s) (string_to_byte input) of
        Inl e \<Rightarrow> Inl e
      | Inr (ps, indices) \<Rightarrow> Inr (indices, s\<lparr>pairs := ps\<rparr>))"

text \<open>
  \<^verbatim>\<open>encode\<close> builds the pattern \<^verbatim>\<open>(t1|t2|...)\<close> from the special tokens in the
  iteration order of \<^verbatim>\<open>special_to_id\<close>. \<^verbatim>\<open>std::regex_replace\<close> puts a backslash before
  every character of the class \<^verbatim>\<open>[.^$*+?()[\]{}|]\<close> of a token; the backslash itself is
  not in that class. The separator is added when the pattern built so far is longer than
  its opening parenthesis.
\<close>

definition regex_special :: "char \<Rightarrow> bool" where
  "regex_special c \<longleftrightarrow> c \<in> set ''.^$*+?()[]{}|''"

definition escape_token :: "string \<Rightarrow> string" where
  "escape_token token =
     concat (map (\<lambda>c. if regex_special c then [CHR 0x5C, c] else [c]) token)"

fun add_alternatives :: "string \<Rightarrow> string list \<Rightarrow> string" where
  "add_alternatives pattern [] = pattern"
| "add_alternatives pattern (token # tokens) =
     add_alternatives
       ((if 1 < length pattern then pattern @ ''|'' else pattern) @ escape_token token) tokens"

definition special_pattern :: "string list \<Rightarrow> string" where
  "special_pattern tokens = add_alternatives ''('' tokens @ '')''"

text \<open>
  The regular-expression library is not part of the program. What
  \<^verbatim>\<open>std::sregex_token_iterator\<close> with the submatches \<^verbatim>\<open>{-1, 0}\<close> yields for a pattern and
  an input is a parameter \<open>rx\<close> of the model: the sequence of the splits, or
  \<open>RegexError\<close> when the library throws. \<^verbatim>\<open>encode\<close> is defined for every such \<open>rx\<close>.

  For special tokens that are not empty and hold no backslash the escaped text of a token
  matches the token and nothing else, so the pattern is an alternation of literal texts.
  For these the splits are written out below (and \<open>rx\<close> is not asked): in the ECMAScript
  grammar of \<^verbatim>\<open>std::regex\<close> an alternation takes the first alternative that matches at the
  position tried, and a search takes the leftmost position. A literal is kept as its first
  character and the rest, so that it cannot be empty.
\<close>

type_synonym regex_library = "string \<Rightarrow> string \<Rightarrow> error + string list"

definition literal_token :: "string \<Rightarrow> bool" where
  "literal_token t \<longleftrightarrow> t \<noteq> [] \<and> CHR 0x5C \<notin> set t"

fun literal :: "string \<Rightarrow> (char \<times> string) option" where
  "literal [] = None"
| "literal (c # cs) = (if CHR 0x5C \<in> set (c # cs) then None else Some (c, cs))"

fun literals :: "string list \<Rightarrow> (char \<times> string) list option" where
  "literals [] = Some []"
| "literals (t # ts) =
     (case literal t of
        None \<Rightarrow> None
      | Some a \<Rightarrow> (case literals ts of None \<Rightarrow> None | Some as \<Rightarrow> Some (a # as)))"

fun match_here :: "(char \<times> string) list \<Rightarrow> string \<Rightarrow> string option" where
  "match_here [] input = None"
| "match_here ((c, cs) # ts) input =
     (if take (Suc (length cs)) input = c # cs then Some (c # cs) else match_here ts input)"

text \<open>\<open>regex_search\<close> returns the prefix before the match, the match and the suffix after it.\<close>

fun regex_search :: "(char \<times> string) list \<Rightarrow> string \<Rightarrow> (string \<times> string \<times> string) option" where
  "regex_search alts [] = None"
| "regex_search alts (c # cs) =
     (case match_here alts (c # cs) of
        Some t \<Rightarrow> Some ([], t, drop (length t) (c # cs))
      | None \<Rightarrow>
          (case regex_search alts cs of
             Some (pre, t, suf) \<Rightarrow> Some (c # pre, t, suf)
           | None \<Rightarrow> None))"

lemma match_here_Some:
  "match_here alts input = Some t \<Longrightarrow>
     t \<in> (\<lambda>(c, cs). c # cs) ` set alts \<and> take (length t) input = t \<and> t \<noteq> []"
proof (induction alts)
  case Nil
  then show ?case by simp
next
  case (Cons a alts)
  obtain c cs where a: "a = (c, cs)" by (cases a)
  show ?case
  proof (cases "take (Suc (length cs)) input = c # cs")
    case True
    with Cons.prems a have t: "t = c # cs" by simp
    with True have "take (length t) input = t" by simp
    with t a show ?thesis by simp
  next
    case False
    with Cons.prems a have "match_here alts input = Some t" by simp
    with Cons.IH show ?thesis by auto
  qed
qed

lemma regex_search_Some:
  "regex_search alts input = Some (pre, t, suf) \<Longrightarrow>
     input = pre @ t @ suf \<and> t \<noteq> [] \<and> t \<in> (\<lambda>(c, cs). c # cs) ` set alts"
proof (induction input arbitrary: pre)
  case Nil
  then show ?case by simp
next
  case (Cons c cs)
  show ?case
  proof (cases "match_here alts (c # cs)")
    case (Some u)
    with Cons.prems have "pre = []" "u = t" "suf = drop (length t) (c # cs)" by auto
    moreover from Some have "u \<in> (\<lambda>(c, cs). c # cs) ` set alts" "take (length u) (c # cs) = u" "u \<noteq> []"
      using match_here_Some [of alts "c # cs" u] by simp_all
    ultimately show ?thesis by (metis append_Nil append_take_drop_id)
  next
    case None
    with Cons.prems obtain pre' where "regex_search alts cs = Some (pre', t, suf)" "pre = c # pre'"
      by (auto split: option.splits)
    with Cons.IH [of pre'] show ?thesis by simp
  qed
qed

text \<open>
  The token iterator on an alternation of literals: for every match it yields the text
  before the match (from the end of the match before; it may be empty) and then the match.
  When no match is left it yields the rest of the input: always when there was no match
  at all (\<open>first\<close>), otherwise only when the rest is not empty.
\<close>

function token_splits :: "(char \<times> string) list \<Rightarrow> bool \<Rightarrow> string \<Rightarrow> string list" where
  "token_splits alts first input =
     (case regex_search alts input of
        None \<Rightarrow> (if first \<or> input \<noteq> [] then [input] else [])
      | Some (pre, t, suf) \<Rightarrow> pre # t # token_splits alts False suf)"
  by pat_completeness auto
termination
  by (relation "measure (\<lambda>(alts, first, input). length input)")
     (auto dest: regex_search_Some)

declare token_splits.simps [simp del]

text \<open>The splits of \<^verbatim>\<open>encode\<close>: written out for literal tokens, asked of the library otherwise.\<close>

definition special_splits :: "regex_library \<Rightarrow> string list \<Rightarrow> string \<Rightarrow> error + string list" where
  "special_splits rx tokens input =
     (case literals tokens of
        Some alts \<Rightarrow> Inr (token_splits alts True input)
      | None \<Rightarrow> rx (special_pattern tokens) input)"

text \<open>
  The body of the \<^verbatim>\<open>for\<close> loop over the splits: a split that is a key of
  \<^verbatim>\<open>special_to_id\<close> gives its ID (read with \<^verbatim>\<open>special_to_id[split]\<close>), any other split
  goes through \<^verbatim>\<open>_encode_non_special\<close>.
\<close>

fun encode_splits :: "tokenizer \<Rightarrow> string list \<Rightarrow> int list \<Rightarrow> error + (int list \<times> tokenizer)" where
  "encode_splits s [] indices = Inr (indices, s)"
| "encode_splits s (split # rest) indices =
     (if map_of (special_to_id s) split \<noteq> None then
        encode_splits (s\<lparr>special_to_id := snd (alist_index (special_to_id s) split)\<rparr>) rest
          (indices @ [fst (alist_index (special_to_id s) split)])
      else
        (case encode_non_special s split of
           Inl e \<Rightarrow> Inl e
         | Inr (non_special_indices, s') \<Rightarrow>
             encode_splits s' rest (indices @ non_special_indices)))"

definition encode ::
  "regex_library \<Rightarrow> ((string \<times> int) list \<Rightarrow> (string \<times> int) list) \<Rightarrow> tokenizer \<Rightarrow> string \<Rightarrow>
     error + (int list \<times> tokenizer)" where
  "encode rx iter s input =
     (if special_to_id s \<noteq> [] then
        (case special_splits rx (map fst (iter (special_to_id s))) input of
           Inl e \<Rightarrow> Inl e
         | Inr splits \<Rightarrow> encode_splits s splits [])
      else encode_non_special s input)"

section \<open>Decoding\<close>

text \<open>
  \<^verbatim>\<open>decode\<close>: an ID found in \<^verbatim>\<open>id_to_special\<close> appends \<^verbatim>\<open>id_to_special[id]\<close>, any
  other ID appends \<^verbatim>\<open>id_to_token[id]\<close>. Both reads are \<^verbatim>\<open>operator[]\<close>, so the second
  one inserts the empty string for an ID that \<^verbatim>\<open>id_to_token\<close> does not hold. There is
  no \<^verbatim>\<open>throw\<close> and no read of a vector by index in \<^verbatim>\<open>decode\<close>, so its result is
  never an error.
\<close>

fun decode_loop :: "tokenizer \<Rightarrow> int list \<Rightarrow> string \<Rightarrow> string \<times> tokenizer" where
  "decode_loop s [] decoded = (decoded, s)"
| "decode_loop s (i # ids) decoded =
     (if id_to_special s i \<noteq> None then
        decode_loop (s\<lparr>id_to_special := snd (map_index [] (id_to_special s) i)\<rparr>) ids
          (decoded @ fst (map_index [] (id_to_special s) i))
      else
        decode_loop (s\<lparr>id_to_token := snd (map_index [] (id_to_token s) i)\<rparr>) ids
          (decoded @ fst (map_index [] (id_to_token s) i)))"

definition decode :: "tokenizer \<Rightarrow> int list \<Rightarrow> error + (string \<times> tokenizer)" where
  "decode s indices = Inr (decode_loop s indices [])"

text \<open>
  What \<^verbatim>\<open>decode\<close> appends for one ID: the special token when there is one, else the
  token of \<^verbatim>\<open>id_to_token\<close>, else the empty string that \<^verbatim>\<open>operator[]\<close> inserts.
\<close>

definition token_text :: "tokenizer \<Rightarrow> int \<Rightarrow> string" where
  "token_text s i =
     (case id_to_special s i of
        Some t \<Rightarrow> t
      | None \<Rightarrow> (case id_to_token s i of Some t \<Rightarrow> t | None \<Rightarrow> []))"

section \<open>The encoding of a span as the specification words it\<close>

text \<open>
  One full pass from left to right: where the current pair is a key of the merge table,
  emit its ID and advance two positions; otherwise emit the current ID and advance one
  position.
\<close>

fun merge_known_spec :: "(int \<times> int \<rightharpoonup> int) \<Rightarrow> int list \<Rightarrow> int list" where
  "merge_known_spec ps (x # y # zs) =
     (case ps (x, y) of
        Some n \<Rightarrow> n # merge_known_spec ps zs
      | None \<Rightarrow> x # merge_known_spec ps (y # zs))"
| "merge_known_spec ps [x] = [x]"
| "merge_known_spec ps [] = []"

lemma merge_known_spec_length: "length (merge_known_spec ps xs) \<le> length xs"
  by (induction ps xs rule: merge_known_spec.induct) (auto split: option.splits)

lemma merge_known_spec_shorter:
  "merge_known_spec ps xs \<noteq> xs \<Longrightarrow> length (merge_known_spec ps xs) < length xs"
proof (induction ps xs rule: merge_known_spec.induct)
  case (1 ps x y zs)
  show ?case
  proof (cases "ps (x, y)")
    case None
    with 1 show ?thesis by auto
  next
    case (Some n)
    with merge_known_spec_length [of ps zs] show ?thesis by simp
  qed
qed simp_all

lemma merge_known_spec_nonempty: "xs \<noteq> [] \<Longrightarrow> merge_known_spec ps xs \<noteq> []"
  by (induction ps xs rule: merge_known_spec.induct) (auto split: option.splits)

text \<open>Full passes are repeated until one pass makes no substitution.\<close>

function encode_spec :: "(int \<times> int \<rightharpoonup> int) \<Rightarrow> int list \<Rightarrow> int list" where
  "encode_spec ps xs =
     (if merge_known_spec ps xs = xs then xs else encode_spec ps (merge_known_spec ps xs))"
  by pat_completeness auto
termination
  by (relation "measure (\<lambda>(ps, xs). length xs)") (auto dest: merge_known_spec_shorter)

declare encode_spec.simps [simp del]

text \<open>No adjacent pair of the sequence is a key of the merge table.\<close>

definition no_known_pair :: "(int \<times> int \<rightharpoonup> int) \<Rightarrow> int list \<Rightarrow> bool" where
  "no_known_pair ps xs \<longleftrightarrow> list_all (\<lambda>p. ps p = None) (zip xs (tl xs))"

section \<open>Notions for the merge rules\<close>

text \<open>The pairs of neighbours of a sequence: the windows of size 2 that \<^verbatim>\<open>most_frequent_pair\<close> counts.\<close>

definition adjacent_pairs :: "int list \<Rightarrow> (int \<times> int) set" where
  "adjacent_pairs xs = set (zip xs (tl xs))"

text \<open>The effect of one accepted merge on the merge table: \<^verbatim>\<open>pairs[pair] = next_id\<close>.\<close>

definition record_event :: "merge_event \<Rightarrow> (int \<times> int \<rightharpoonup> int) \<Rightarrow> (int \<times> int \<rightharpoonup> int)" where
  "record_event e m = m(fst e \<mapsto> fst (snd e))"

section \<open>The states of a tokenizer\<close>

text \<open>
  The token of an ID in \<^verbatim>\<open>id_to_token\<close>, the empty string when it has none, and the text
  that \<^verbatim>\<open>decode\<close> produces for a sequence.
\<close>

definition token_of :: "tokenizer \<Rightarrow> int \<Rightarrow> string" where
  "token_of s i = (case id_to_token s i of Some t \<Rightarrow> t | None \<Rightarrow> [])"

definition text_of :: "tokenizer \<Rightarrow> int list \<Rightarrow> string" where
  "text_of s ids = concat (map (token_text s) ids)"

text \<open>
  What the tables of a tokenizer satisfy between calls: the counter is at least 256; the
  IDs 0..255 hold their byte; special tokens have IDs from 256 up to the counter; every
  merge rule maps IDs below the counter to an ID that is not a special token and whose
  token is the concatenation of the tokens of the pair; the two special-token tables agree.
\<close>

definition consistent :: "tokenizer \<Rightarrow> bool" where
  "consistent s \<longleftrightarrow>
     256 \<le> next_id s
     \<and> (\<forall>i. 0 \<le> i \<and> i < 256 \<longrightarrow> id_to_token s i = Some [char_of i])
     \<and> (\<forall>i t. id_to_special s i = Some t \<longrightarrow> 256 \<le> i \<and> i < next_id s)
     \<and> (\<forall>a b n. pairs s (a, b) = Some n \<longrightarrow>
            256 \<le> n \<and> n < next_id s \<and> a < next_id s \<and> b < next_id s
            \<and> id_to_special s n = None \<and> token_of s n = token_of s a @ token_of s b)
     \<and> (\<forall>t i. map_of (special_to_id s) t = Some i \<longrightarrow> id_to_special s i = Some t)"

text \<open>An ID that \<^verbatim>\<open>_encode_non_special\<close> can produce: a byte or the ID of a merge rule.\<close>

definition plain_id :: "tokenizer \<Rightarrow> int \<Rightarrow> bool" where
  "plain_id s x \<longleftrightarrow> (0 \<le> x \<and> x < 256) \<or> (\<exists>p. pairs s p = Some x)"

text \<open>
  The tokenizers that the public operations produce from a constructed one, each operation
  taken when it returns.
\<close>

inductive reachable :: "tokenizer \<Rightarrow> bool" where
  constructed: "construct m = Inr s \<Longrightarrow> reachable s"
| was_reset: "reachable s \<Longrightarrow> reachable (reset s)"
| registered: "reachable s \<Longrightarrow> register_special_token s t = Inr s' \<Longrightarrow> reachable s'"
| trained: "reachable s \<Longrightarrow> iteration_order iter \<Longrightarrow>
            train iter s input stop_early = Inr (s', events) \<Longrightarrow> reachable s'"
| encoded: "reachable s \<Longrightarrow> encode rx iter' s input = Inr (ids, s') \<Longrightarrow> reachable s'"
| decoded: "reachable s \<Longrightarrow> decode s ids = Inr (text, s') \<Longrightarrow> reachable s'"

text \<open>
  What the round trip needs of the library: the splits of the token iterator with the
  submatches \<^verbatim>\<open>{-1, 0}\<close> are the pieces of the input, in order.
\<close>

definition splits_input :: "regex_library \<Rightarrow> bool" where
  "splits_input rx \<longleftrightarrow> (\<forall>pattern input splits. rx pattern input = Inr splits \<longrightarrow> concat splits = input)"

text \<open>A special token occurs in a text: it is a substring of it.\<close>

fun occurs_in :: "string \<Rightarrow> string \<Rightarrow> bool" where
  "occurs_in t [] \<longleftrightarrow> t = []"
| "occurs_in t (c # cs) \<longleftrightarrow> take (length t) (c # cs) = t \<or> occurs_in t cs"

section \<open>Example tokenizers\<close>

text \<open>A fresh tokenizer of maximum size 257 after \<^verbatim>\<open>train\<close> on \<^verbatim>\<open>aaaa\<close>.\<close>

abbreviation trained_aaaa :: tokenizer where
  "trained_aaaa \<equiv>
     (fresh_tokenizer 257)\<lparr>pairs := [(97, 97) \<mapsto> 256],
                            id_to_token := (id_to_token (fresh_tokenizer 257))(256 \<mapsto> ''aa''),
                            next_id := 257\<rparr>"

text \<open>A fresh tokenizer of maximum size 257 after the registration of \<^verbatim>\<open><END>\<close>.\<close>

abbreviation with_end_token :: tokenizer where
  "with_end_token \<equiv>
     (fresh_tokenizer 257)\<lparr>special_to_id := [(''<END>'', 256)],
                            id_to_special := [256 \<mapsto> ''<END>''], next_id := 257\<rparr>"



text \<open>A tokenizer on which two special tokens were registered, above its maximum size.\<close>

abbreviation two_specials :: tokenizer where
  "two_specials \<equiv>
     (fresh_tokenizer 257)\<lparr>special_to_id := [(''<a>'', 256), (''<b>'', 257)],
                            id_to_special := [256 \<mapsto> ''<a>'', 257 \<mapsto> ''<b>''],
                            next_id := 258\<rparr>"

section \<open>The rewrite of the training step is the specified one\<close>

lemma merge_loop_rewrite:
  "merge_loop indices p n i merged = merged @ rewrite_spec (drop i indices) p n"
proof (induction indices p n i merged rule: merge_loop.induct)
  case (1 indices pair new_index i merged)
  show ?case
  proof (cases "i < length indices")
    case False
    then show ?thesis by (simp add: merge_loop.simps [of indices pair new_index i merged])
  next
    case True
    note inside = True
    show ?thesis
    proof (cases "i + 1 < length indices")
      case False
      with inside have last: "drop i indices = [indices ! i]"
        by (metis Cons_nth_drop_Suc Suc_eq_plus1 drop_all not_le_imp_less not_less)
      from False inside have guard: "\<not> i < size_minus_one (length indices)"
        by (auto simp: size_minus_one_def)
      from inside False have "drop (i + 1) indices = []" by simp
      with "1.IH"(2) [OF inside] guard last inside show ?thesis
        by (simp add: merge_loop.simps [of indices pair new_index i merged])
    next
      case True
      then have guard: "i < size_minus_one (length indices)"
        by (auto simp: size_minus_one_def)
      from True inside have split: "drop i indices = indices ! i # indices ! (i + 1) # drop (i + 2) indices"
        by (metis Cons_nth_drop_Suc Suc_eq_plus1 add_2_eq_Suc')
      have split1: "drop (i + 1) indices = indices ! (i + 1) # drop (i + 2) indices"
        using True by (metis Cons_nth_drop_Suc Suc_eq_plus1 add_2_eq_Suc')
      show ?thesis
      proof (cases "(indices ! i, indices ! (i + 1)) = pair")
        case True
        with "1.IH"(1) [OF inside] guard split inside show ?thesis
          by (simp add: merge_loop.simps [of indices pair new_index i merged])
      next
        case False
        with "1.IH"(2) [OF inside] guard split split1 inside show ?thesis
          by (simp add: merge_loop.simps [of indices pair new_index i merged])
      qed
    qed
  qed
qed

lemma merge_pair_rewrite: "merge_pair indices p n = rewrite_spec indices p n"
  by (simp add: merge_pair_def merge_loop_rewrite)

text \<open>
  C6. The rewrite of the training step is one left-to-right pass without overlap: on the
  empty sequence and on a single ID it changes nothing; on a sequence that starts with
  the selected pair it emits the new ID and goes on two positions further; otherwise it
  emits the first ID and goes on one position further. For a selected pair \<open>(x, x)\<close>,
  three \<open>x\<close> in a row give the new ID followed by one \<open>x\<close>.
\<close>

theorem merge_pair_non_overlapping:
  "merge_pair [] pair new_index = []
   \<and> merge_pair [a] pair new_index = [a]
   \<and> merge_pair (a # b # rest) pair new_index =
       (if (a, b) = pair then new_index # merge_pair rest pair new_index
        else a # merge_pair (b # rest) pair new_index)
   \<and> merge_pair [x, x, x] (x, x) new_index = [new_index, x]"
  by (simp add: merge_pair_rewrite)

section \<open>Registration of special tokens\<close>

text \<open>
  C10. Registration is idempotent: when \<^verbatim>\<open>register_special_token\<close> has returned for a
  string, a second call for the same string returns the tokenizer as it is (the same ID for
  the string, the same counter, the same vocabulary size), and the string has an ID.
\<close>

theorem register_special_token_idempotent:
  "register_special_token s t = Inr s1 \<Longrightarrow>
     register_special_token s1 t = Inr s1
     \<and> vocab_size s1 = (if map_of (special_to_id s) t = None then vocab_size s + 1 else vocab_size s)
     \<and> (\<exists>i. map_of (special_to_id s1) t = Some i)"
  by (auto simp: register_special_token_def map_add_def vocab_size_def split: if_splits)

theorem register_special_token_idempotent_witness:
  "register_special_token (fresh_tokenizer 257) ''<END>'' = Inr with_end_token
   \<and> register_special_token with_end_token ''<END>'' = Inr with_end_token
   \<and> vocab_size (fresh_tokenizer 257) = 256 \<and> vocab_size with_end_token = 257
   \<and> map_of (special_to_id with_end_token) ''<END>'' = Some 256"
proof -
  have first: "register_special_token (fresh_tokenizer 257) ''<END>'' = Inr with_end_token"
    by (simp add: register_special_token_def fresh_tokenizer_def reset_def int_max_def)
  from register_special_token_idempotent [OF first] first show ?thesis
    by (simp add: vocab_size_def fresh_tokenizer_def reset_def)
qed

section \<open>Decoding an unknown ID\<close>

lemma decode_loop_result:
  "decode_loop s ids acc =
     (acc @ concat (map (token_text s) ids),
      s\<lparr>id_to_token := (\<lambda>j. if j \<in> set ids \<and> id_to_special s j = None \<and> id_to_token s j = None
                             then Some [] else id_to_token s j)\<rparr>)"
proof (induction ids arbitrary: s acc)
  case Nil
  then show ?case by simp
next
  case (Cons i ids)
  show ?case
  proof (cases "id_to_special s i")
    case (Some t)
    then have "map_index [] (id_to_special s) i = (t, id_to_special s)"
      by (simp add: map_index_def)
    then have step: "decode_loop s (i # ids) acc = decode_loop s ids (acc @ token_text s i)"
      using Some by (simp add: token_text_def)
    have same: "(\<lambda>j. if j \<in> set (i # ids) \<and> id_to_special s j = None \<and> id_to_token s j = None
                     then Some [] else id_to_token s j) =
                (\<lambda>j. if j \<in> set ids \<and> id_to_special s j = None \<and> id_to_token s j = None
                     then Some [] else id_to_token s j)"
      using Some by (auto simp: fun_eq_iff)
    show ?thesis
      unfolding step Cons.IH [of s "acc @ token_text s i"] same by simp
  next
    case None
    define s1 where "s1 = s\<lparr>id_to_token := snd (map_index [] (id_to_token s) i)\<rparr>"
    have text1: "token_text s1 = token_text s"
      by (auto simp: s1_def token_text_def map_index_def fun_eq_iff split: option.splits)
    have out: "fst (map_index [] (id_to_token s) i) = token_text s i"
      using None by (auto simp: token_text_def map_index_def split: option.splits)
    have step: "decode_loop s (i # ids) acc = decode_loop s1 ids (acc @ token_text s i)"
      using None by (simp add: s1_def out)
    have tok1: "id_to_token s1 =
                  (\<lambda>j. if j = i \<and> id_to_token s i = None then Some [] else id_to_token s j)"
      by (auto simp: s1_def map_index_def fun_eq_iff split: option.splits)
    have sp1: "id_to_special s1 = id_to_special s"
      by (simp add: s1_def)
    have same: "(\<lambda>j. if j \<in> set ids \<and> id_to_special s1 j = None \<and> id_to_token s1 j = None
                     then Some [] else id_to_token s1 j) =
                (\<lambda>j. if j \<in> set (i # ids) \<and> id_to_special s j = None \<and> id_to_token s j = None
                     then Some [] else id_to_token s j)"
      using None by (auto simp: tok1 sp1 fun_eq_iff)
    have state: "s1\<lparr>id_to_token := (\<lambda>j. if j \<in> set ids \<and> id_to_special s1 j = None \<and> id_to_token s1 j = None
                             then Some [] else id_to_token s1 j)\<rparr> =
                 s\<lparr>id_to_token := (\<lambda>j. if j \<in> set (i # ids) \<and> id_to_special s j = None \<and> id_to_token s j = None
                             then Some [] else id_to_token s j)\<rparr>"
      unfolding same by (simp add: s1_def)
    show ?thesis
      unfolding step Cons.IH [of s1 "acc @ token_text s i"] text1 state by simp
  qed
qed

text \<open>
  C2, as the code has it. \<^verbatim>\<open>decode\<close> never fails. An ID that is in neither table is
  skipped without a word: the decoded text is the text of the sequence without that ID,
  and the ID is left in \<^verbatim>\<open>id_to_token\<close> with the empty token.
\<close>

theorem decode_skips_unknown_id:
  "id_to_special s i = None \<Longrightarrow> id_to_token s i = None \<Longrightarrow>
     \<exists>s'. decode s (before @ i # after) = Inr (concat (map (token_text s) (before @ after)), s')
          \<and> id_to_token s' i = Some []"
  by (simp add: decode_def decode_loop_result token_text_def)

theorem decode_skips_unknown_id_witness:
  "id_to_special (fresh_tokenizer 257) 300 = None \<and> id_to_token (fresh_tokenizer 257) 300 = None
   \<and> (\<exists>s'. decode (fresh_tokenizer 257) [97, 300, 98] = Inr (''ab'', s') \<and> id_to_token s' 300 = Some [])"
proof -
  have h1: "id_to_special (fresh_tokenizer 257) 300 = None"
    and h2: "id_to_token (fresh_tokenizer 257) 300 = None"
    by (simp_all add: fresh_tokenizer_def reset_def)
  have t: "token_text (fresh_tokenizer 257) 97 = ''a''" "token_text (fresh_tokenizer 257) 98 = ''b''"
    by (simp_all add: token_text_def fresh_tokenizer_def reset_def char_of_def)
  from decode_skips_unknown_id [OF h1 h2, of "[97]" "[98]"] h1 h2 t show ?thesis by simp
qed

text \<open>
  The ID 300 is in no table of a fresh tokenizer; \<^verbatim>\<open>decode\<close> of the sequence that holds
  only this ID returns the empty text, not an error.
\<close>

theorem decode_unknown_id_counterexample:
  "id_to_token (fresh_tokenizer 257) 300 = None
   \<and> id_to_special (fresh_tokenizer 257) 300 = None
   \<and> decode (fresh_tokenizer 257) [300] =
       Inr ([], (fresh_tokenizer 257)\<lparr>id_to_token := (id_to_token (fresh_tokenizer 257))(300 \<mapsto> [])\<rparr>)"
  by (simp add: decode_def map_index_def fresh_tokenizer_def reset_def)

section \<open>Training on the empty corpus\<close>

text \<open>When the vocabulary is full the loop is not entered: any corpus leaves the tokenizer as it is.\<close>

lemma train_full:
  "\<not> vocab_size s < max_vocab_size s \<Longrightarrow> train iter s input stop_early = Inr (s, [])"
  by (simp add: train_def train_loop.simps)

text \<open>
  Otherwise \<^verbatim>\<open>train\<close> on the empty byte sequence calls \<^verbatim>\<open>most_frequent_pair\<close> on the
  empty vector, whose bound \<^verbatim>\<open>indices.size() - 1\<close> wraps around: the first turn of the
  counting loop reads \<^verbatim>\<open>indices[0]\<close> and \<^verbatim>\<open>indices[1]\<close> outside the vector.
\<close>

lemma train_empty_below_max:
  "vocab_size s < max_vocab_size s \<Longrightarrow> train iter s [] stop_early = Inl OutOfBounds"
  by (simp add: train_def string_to_byte_def train_loop.simps most_frequent_pair_def
      count_pairs.simps size_minus_one_def size_max_def)

text \<open>
  C3. \<^verbatim>\<open>train\<close> on the empty byte sequence, on a fresh tokenizer of maximum size 257,
  does not return with zero merges: it reads outside the empty vector.
\<close>

theorem train_empty_out_of_bounds:
  "train iter (fresh_tokenizer 257) [] stop_early = Inl OutOfBounds"
  by (simp add: train_def string_to_byte_def train_loop.simps most_frequent_pair_def
      count_pairs.simps size_minus_one_def size_max_def vocab_size_def fresh_tokenizer_def reset_def)

section \<open>Encoding does not change the tokenizer\<close>

lemma map_index_found: "m k \<noteq> None \<Longrightarrow> map_index d m k = (the (m k), m)"
  by (auto simp: map_index_def)

lemma alist_index_found: "map_of m k \<noteq> None \<Longrightarrow> alist_index m k = (the (map_of m k), m)"
  by (auto simp: alist_index_def)

lemma encode_pass_frame:
  "encode_pass ps indices i ch = Inr (ps', indices', ch') \<Longrightarrow> ps' = ps"
proof (induction ps indices i ch rule: encode_pass.induct)
  case (1 ps indices i changes_made)
  from "1.prems" show ?case
    apply (subst (asm) encode_pass.simps)
    apply (simp split: if_splits)
    subgoal using "1.IH"(1) by (auto simp: map_index_found)
    subgoal using "1.IH"(2) by auto
    done
qed

lemma encode_fix_frame: "encode_fix ps indices = Inr (ps', indices') \<Longrightarrow> ps' = ps"
proof (induction ps indices rule: encode_fix.induct)
  case (1 ps indices)
  from "1.prems" obtain ps1 xs1 ch where
    pass: "encode_pass ps indices 0 False = Inr (ps1, xs1, ch)"
    by (subst (asm) encode_fix.simps) (auto split: sum.splits)
  then have same: "ps1 = ps" by (rule encode_pass_frame)
  show ?case
  proof (cases ch)
    case True
    with "1.prems" pass have "encode_fix ps1 xs1 = Inr (ps', indices')"
      by (subst (asm) encode_fix.simps) simp
    with "1.IH" [OF pass refl refl True] same show ?thesis by simp
  next
    case False
    with "1.prems" pass same show ?thesis
      by (subst (asm) encode_fix.simps) simp
  qed
qed

lemma encode_non_special_frame: "encode_non_special s input = Inr (ids, s') \<Longrightarrow> s' = s"
  by (auto simp: encode_non_special_def split: sum.splits dest!: encode_fix_frame)

lemma encode_splits_frame: "encode_splits s splits acc = Inr (ids, s') \<Longrightarrow> s' = s"
proof (induction splits arbitrary: s acc)
  case Nil
  then show ?case by simp
next
  case (Cons split rest)
  show ?case
  proof (cases "map_of (special_to_id s) split")
    case (Some v)
    then have "alist_index (special_to_id s) split = (v, special_to_id s)"
      by (simp add: alist_index_found)
    with Cons.prems Some have "encode_splits s rest (acc @ [v]) = Inr (ids, s')" by simp
    then show ?thesis by (rule Cons.IH)
  next
    case None
    with Cons.prems obtain xs s1 where
      ns: "encode_non_special s split = Inr (xs, s1)" and
      rest: "encode_splits s1 rest (acc @ xs) = Inr (ids, s')"
      by (auto split: sum.splits)
    from ns have "s1 = s" by (rule encode_non_special_frame)
    with Cons.IH [OF rest] show ?thesis by simp
  qed
qed

lemma encode_same_state: "encode rx iter s input = Inr (ids, s') \<Longrightarrow> s' = s"
  by (auto simp: encode_def split: if_splits sum.splits
           dest: encode_splits_frame encode_non_special_frame)



section \<open>Growth of the vocabulary under training\<close>

lemma train_loop_size:
  "train_loop iter stop_early s indices = Inr (s', events) \<Longrightarrow>
     next_id s' = next_id s + int (length events)
     \<and> max_vocab_size s' = max_vocab_size s
     \<and> (next_id s \<le> max_vocab_size s \<longrightarrow> next_id s' \<le> max_vocab_size s)
     \<and> map (\<lambda>e. fst (snd e)) events = map (\<lambda>k. next_id s + int k) [0..<length events]"
proof (induction iter stop_early s indices arbitrary: s' events rule: train_loop.induct)
  case (1 iter stop_early s indices)
  show ?case
  proof (cases "vocab_size s < max_vocab_size s")
    case False
    with "1.prems" show ?thesis by (simp add: train_loop.simps [of iter stop_early s indices])
  next
    case True
    note below = True
    from "1.prems" below obtain pair cnt where
      mfp: "most_frequent_pair iter indices = Inr (pair, cnt)"
      by (auto simp: train_loop.simps [of iter stop_early s indices] split: sum.splits)
    show ?thesis
    proof (cases "(fst pair = - 1 \<and> snd pair = - 1) \<or> (stop_early \<and> cnt = 1)")
      case True
      with "1.prems" below mfp show ?thesis
        by (auto simp: train_loop.simps [of iter stop_early s indices] split: if_splits)
    next
      case False
      with "1.prems" below mfp obtain events' where
        rec: "train_loop iter stop_early (fst (record_merge s pair))
                (merge_pair indices pair (next_id s)) = Inr (s', events')" and
        ev: "events = (pair, next_id s, snd (record_merge s pair)) # events'"
        by (auto simp: train_loop.simps [of iter stop_early s indices] split: sum.splits)
      from False have c1: "\<not> (fst pair = - 1 \<and> snd pair = - 1)" and c2: "\<not> (stop_early \<and> cnt = 1)"
        by auto
      note ih = "1.IH" [OF below mfp refl c1 c2 rec]
      have shift: "map (\<lambda>k. next_id s + int k) [0..<Suc (length events')] =
                   next_id s # map (\<lambda>k. next_id s + 1 + int k) [0..<length events']"
        by (simp add: upt_conv_Cons map_Suc_upt [symmetric] del: upt_Suc)
      from ih below show ?thesis
        by (simp add: ev shift vocab_size_def del: upt_Suc)
    qed
  qed
qed

text \<open>
  C7, as the code has it. Whenever \<^verbatim>\<open>train\<close> returns, the vocabulary size has grown by
  the number of accepted merges, one per merge (the merges take the IDs from the old size
  on, in order), so it has not decreased; the maximum size is unchanged; and the new size
  is at most the maximum size when the old size was.
\<close>

theorem train_vocab_size_growth:
  "train iter s input stop_early = Inr (s', events) \<Longrightarrow>
     vocab_size s' = vocab_size s + int (length events)
     \<and> vocab_size s \<le> vocab_size s'
     \<and> (vocab_size s \<le> max_vocab_size s \<longrightarrow> vocab_size s' \<le> max_vocab_size s')
     \<and> max_vocab_size s' = max_vocab_size s
     \<and> map (\<lambda>e. fst (snd e)) events = map (\<lambda>k. vocab_size s + int k) [0..<length events]"
  using train_loop_size [of iter stop_early s "string_to_byte input" s' events]
  by (auto simp: train_def vocab_size_def)

lemma train_aaaa:
  "train (\<lambda>xs. xs) (fresh_tokenizer 257) ''aaaa'' False =
     Inr ((fresh_tokenizer 257)\<lparr>pairs := [(97, 97) \<mapsto> 256],
            id_to_token := (id_to_token (fresh_tokenizer 257))(256 \<mapsto> ''aa''),
            next_id := 257\<rparr>, [((97, 97), 256, ''aa'')])"
  by (simp add: train_def string_to_byte_def train_loop.simps most_frequent_pair_def
      count_pairs.simps size_minus_one_def vocab_size_def fresh_tokenizer_def reset_def
      int_max_def merge_pair_rewrite record_merge_def map_index_def Let_def char_of_def)

theorem train_vocab_size_growth_witness:
  "train (\<lambda>xs. xs) (fresh_tokenizer 257) ''aaaa'' False =
     Inr ((fresh_tokenizer 257)\<lparr>pairs := [(97, 97) \<mapsto> 256],
            id_to_token := (id_to_token (fresh_tokenizer 257))(256 \<mapsto> ''aa''),
            next_id := 257\<rparr>, [((97, 97), 256, ''aa'')])
   \<and> vocab_size (fresh_tokenizer 257) = 256
   \<and> vocab_size ((fresh_tokenizer 257)\<lparr>pairs := [(97, 97) \<mapsto> 256],
            id_to_token := (id_to_token (fresh_tokenizer 257))(256 \<mapsto> ''aa''),
            next_id := 257\<rparr>) = 257"
  using train_vocab_size_growth [OF train_aaaa] train_aaaa
  by (simp add: vocab_size_def fresh_tokenizer_def reset_def)

text \<open>
  Registration of special tokens does not look at the maximum size. After two
  registrations on a fresh tokenizer of maximum size 257 the vocabulary size is 258;
  \<^verbatim>\<open>train\<close> returns at once and the size after the call is above the maximum.
\<close>

theorem train_above_max_counterexample:
  "register_special_token (fresh_tokenizer 257) ''<a>'' =
     Inr ((fresh_tokenizer 257)\<lparr>special_to_id := [(''<a>'', 256)],
                                 id_to_special := [256 \<mapsto> ''<a>''], next_id := 257\<rparr>)
   \<and> register_special_token
        ((fresh_tokenizer 257)\<lparr>special_to_id := [(''<a>'', 256)],
                                 id_to_special := [256 \<mapsto> ''<a>''], next_id := 257\<rparr>) ''<b>'' =
       Inr two_specials
   \<and> train (\<lambda>xs. xs) two_specials ''ab'' False = Inr (two_specials, [])
   \<and> max_vocab_size two_specials = 257
   \<and> vocab_size two_specials = 258"
  by (simp add: register_special_token_def train_def train_loop.simps vocab_size_def
      fresh_tokenizer_def reset_def int_max_def)

section \<open>Encoding a span reaches a fixpoint\<close>

lemma no_known_pair_Cons2 [simp]:
  "no_known_pair ps (x # y # zs) \<longleftrightarrow> ps (x, y) = None \<and> no_known_pair ps (y # zs)"
  by (simp add: no_known_pair_def)

lemma no_known_pair_short [simp]: "no_known_pair ps [x]" "no_known_pair ps []"
  by (simp_all add: no_known_pair_def)

lemma merge_known_spec_fixed: "merge_known_spec ps xs = xs \<longleftrightarrow> no_known_pair ps xs"
proof (induction ps xs rule: merge_known_spec.induct)
  case (1 ps x y zs)
  show ?case
  proof (cases "ps (x, y)")
    case None
    with 1 show ?thesis by auto
  next
    case (Some n)
    have "length (n # merge_known_spec ps zs) \<noteq> length (x # y # zs)"
      using merge_known_spec_length [of ps zs] by simp
    then have "n # merge_known_spec ps zs \<noteq> x # y # zs" by metis
    with Some show ?thesis by simp
  qed
qed simp_all

lemma no_known_pair_nth:
  "no_known_pair ps xs \<longleftrightarrow> (\<forall>j. j + 1 < length xs \<longrightarrow> ps (xs ! j, xs ! (j + 1)) = None)"
proof (induction xs rule: induct_list012)
  case (3 x y zs)
  show ?case
  proof
    assume l: "no_known_pair ps (x # y # zs)"
    show "\<forall>j. j + 1 < length (x # y # zs) \<longrightarrow> ps ((x # y # zs) ! j, (x # y # zs) ! (j + 1)) = None"
    proof (intro allI impI)
      fix j assume "j + 1 < length (x # y # zs)"
      with l 3 show "ps ((x # y # zs) ! j, (x # y # zs) ! (j + 1)) = None"
        by (cases j) auto
    qed
  next
    assume r: "\<forall>j. j + 1 < length (x # y # zs) \<longrightarrow> ps ((x # y # zs) ! j, (x # y # zs) ! (j + 1)) = None"
    then have "ps (x, y) = None" by (auto dest: spec [of _ 0])
    moreover have "\<forall>j. j + 1 < length (y # zs) \<longrightarrow> ps ((y # zs) ! j, (y # zs) ! (j + 1)) = None"
    proof (intro allI impI)
      fix j assume "j + 1 < length (y # zs)"
      with r [rule_format, of "Suc j"] show "ps ((y # zs) ! j, (y # zs) ! (j + 1)) = None" by simp
    qed
    ultimately show "no_known_pair ps (x # y # zs)" using 3 by simp
  qed
qed simp_all

lemma encode_pass_spec:
  "indices \<noteq> [] \<Longrightarrow> i \<le> length indices \<Longrightarrow>
     encode_pass ps indices i ch =
       Inr (ps, take i indices @ merge_known_spec ps (drop i indices),
            ch \<or> merge_known_spec ps (drop i indices) \<noteq> drop i indices)"
proof (induction ps indices i ch rule: encode_pass.induct)
  case (1 ps indices i changes_made)
  note nonempty = \<open>indices \<noteq> []\<close>
  show ?case
  proof (cases "i + 1 < length indices")
    case False
    with nonempty have guard: "\<not> i < size_minus_one (length indices)"
      by (auto simp: size_minus_one_def)
    from False "1.prems" have "drop i indices = [] \<or> drop i indices = [indices ! i]"
      by (metis Cons_nth_drop_Suc Suc_eq_plus1 drop_all le_neq_implies_less not_le_imp_less not_less)
    then have "merge_known_spec ps (drop i indices) = drop i indices" by auto
    with guard show ?thesis
      by (simp add: encode_pass.simps [of ps indices i changes_made])
  next
    case True
    with nonempty have guard: "i < size_minus_one (length indices)"
      by (auto simp: size_minus_one_def)
    from True have split: "drop i indices = indices ! i # indices ! Suc i # drop (Suc (Suc i)) indices"
      by (metis Cons_nth_drop_Suc Suc_eq_plus1 add_lessD1)
    from True have split1: "drop (Suc i) indices = indices ! Suc i # drop (Suc (Suc i)) indices"
      by (metis Cons_nth_drop_Suc Suc_eq_plus1)
    show ?thesis
    proof (cases "ps (indices ! i, indices ! (i + 1))")
      case None
      have unfold: "encode_pass ps indices i changes_made = encode_pass ps indices (i + 1) changes_made"
        using guard True None by (simp add: encode_pass.simps [of ps indices i changes_made])
      have ih: "encode_pass ps indices (i + 1) changes_made =
          Inr (ps, take (i + 1) indices @ merge_known_spec ps (drop (i + 1) indices),
               changes_made \<or> merge_known_spec ps (drop (i + 1) indices) \<noteq> drop (i + 1) indices)"
        using "1.IH"(2) [OF guard True _ nonempty] None True by simp
      have tk: "take (Suc i) indices = take i indices @ [indices ! i]"
        using True by (simp add: take_Suc_conv_app_nth)
      have m: "merge_known_spec ps (drop i indices) =
                 indices ! i # merge_known_spec ps (drop (i + 1) indices)"
        using None by (simp add: split split1)
      have d: "drop i indices = indices ! i # drop (i + 1) indices"
        by (simp add: split split1)
      show ?thesis
        unfolding unfold ih m by (simp add: tk d)
    next
      case (Some n)
      define indices' where "indices' = erase_at (i + 1) (indices[i := n])"
      have idx: "map_index 0 ps (indices ! i, indices ! (i + 1)) = (n, ps)"
        using Some by (simp add: map_index_def)
      have unfold: "encode_pass ps indices i changes_made = encode_pass ps indices' (i + 1) True"
        using guard True Some idx by (simp add: encode_pass.simps [of ps indices i changes_made] indices'_def)
      have len: "length indices' = length indices - 1"
        using True by (simp add: indices'_def)
      have tk: "take (Suc i) indices' = take i indices @ [n]"
        using True by (simp add: indices'_def erase_at_def take_Suc_conv_app_nth)
      have dr: "drop (Suc i) indices' = drop (Suc (Suc i)) indices"
        using True by (simp add: indices'_def erase_at_def)
      have ne: "indices' \<noteq> []" using len True by (metis add_lessD1 length_0_conv less_diff_conv not_less_zero)
      have ih: "encode_pass ps indices' (i + 1) True =
          Inr (ps, take (i + 1) indices' @ merge_known_spec ps (drop (i + 1) indices'),
               True \<or> merge_known_spec ps (drop (i + 1) indices') \<noteq> drop (i + 1) indices')"
        using "1.IH"(1) [OF guard True, unfolded idx fst_conv snd_conv, folded indices'_def] Some ne len True
        by simp
      have "length (n # merge_known_spec ps (drop (Suc (Suc i)) indices)) \<noteq> length (drop i indices)"
        using merge_known_spec_length [of ps "drop (Suc (Suc i)) indices"] by (simp add: split)
      then have neq: "n # merge_known_spec ps (drop (Suc (Suc i)) indices) \<noteq> drop i indices"
        by metis
      have m: "merge_known_spec ps (drop i indices) = n # merge_known_spec ps (drop (Suc (Suc i)) indices)"
        using Some by (simp add: split)
      show ?thesis
        unfolding unfold ih m using neq by (simp add: tk dr)
    qed
  qed
qed


lemma encode_pass_empty: "encode_pass ps [] 0 ch = Inl OutOfBounds"
  by (simp add: encode_pass.simps size_minus_one_def size_max_def)

lemma encode_fix_spec:
  "indices \<noteq> [] \<Longrightarrow> encode_fix ps indices = Inr (ps, encode_spec ps indices)"
proof (induction ps indices rule: encode_spec.induct)
  case (1 ps xs)
  have pass: "encode_pass ps xs 0 False =
                Inr (ps, merge_known_spec ps xs, merge_known_spec ps xs \<noteq> xs)"
    using encode_pass_spec [of xs 0 ps False] "1.prems" by simp
  show ?case
  proof (cases "merge_known_spec ps xs = xs")
    case True
    with pass show ?thesis
      by (simp add: encode_fix.simps [of ps xs] encode_spec.simps [of ps xs])
  next
    case False
    from "1.prems" have "merge_known_spec ps xs \<noteq> []" by (rule merge_known_spec_nonempty)
    with "1.IH" [OF False] have "encode_fix ps (merge_known_spec ps xs) =
        Inr (ps, encode_spec ps (merge_known_spec ps xs))" by simp
    with pass False show ?thesis
      by (simp add: encode_fix.simps [of ps xs] encode_spec.simps [of ps xs])
  qed
qed

lemma encode_spec_fixed: "merge_known_spec ps (encode_spec ps xs) = encode_spec ps xs"
proof (induction ps xs rule: encode_spec.induct)
  case (1 ps xs)
  then show ?case by (cases "merge_known_spec ps xs = xs") (simp_all add: encode_spec.simps [of ps xs])
qed

lemma encode_spec_iterates: "\<exists>k. encode_spec ps xs = (merge_known_spec ps ^^ k) xs"
proof (induction ps xs rule: encode_spec.induct)
  case (1 ps xs)
  show ?case
  proof (cases "merge_known_spec ps xs = xs")
    case True
    then have "encode_spec ps xs = (merge_known_spec ps ^^ 0) xs"
      by (simp add: encode_spec.simps [of ps xs])
    then show ?thesis by blast
  next
    case False
    with "1.IH" obtain k where "encode_spec ps (merge_known_spec ps xs) = (merge_known_spec ps ^^ k) (merge_known_spec ps xs)"
      by blast
    with False have "encode_spec ps xs = (merge_known_spec ps ^^ Suc k) xs"
      by (simp add: encode_spec.simps [of ps xs] funpow_swap1)
    then show ?thesis by blast
  qed
qed

lemma encode_non_special_spec:
  "input \<noteq> [] \<Longrightarrow>
     encode_non_special s input = Inr (encode_spec (pairs s) (string_to_byte input), s)"
  by (simp add: encode_non_special_def encode_fix_spec string_to_byte_def)

lemma encode_non_special_empty: "encode_non_special s [] = Inl OutOfBounds"
  by (simp add: encode_non_special_def encode_fix.simps encode_pass_empty string_to_byte_def)

text \<open>
  For every non-empty span, \<^verbatim>\<open>_encode_non_special\<close> returns, with the merge table
  unchanged, the sequence obtained from the bytes of the span by repeating the full
  left-to-right pass until a pass makes no substitution: it is some number of passes
  applied to the bytes, one more pass leaves it as it is, and no adjacent pair of it is a
  key of the merge table.
\<close>

lemma encode_non_special_fixpoint:
  "input \<noteq> [] \<Longrightarrow>
     encode_non_special s input = Inr (encode_spec (pairs s) (string_to_byte input), s)
     \<and> (\<exists>k. encode_spec (pairs s) (string_to_byte input) =
              (merge_known_spec (pairs s) ^^ k) (string_to_byte input))
     \<and> merge_known_spec (pairs s) (encode_spec (pairs s) (string_to_byte input)) =
         encode_spec (pairs s) (string_to_byte input)
     \<and> (\<forall>j. j + 1 < length (encode_spec (pairs s) (string_to_byte input)) \<longrightarrow>
            pairs s (encode_spec (pairs s) (string_to_byte input) ! j,
                     encode_spec (pairs s) (string_to_byte input) ! (j + 1)) = None)"
  using encode_spec_fixed [of "pairs s" "string_to_byte input"]
  by (simp add: encode_non_special_spec encode_spec_iterates merge_known_spec_fixed no_known_pair_nth)

lemma encode_non_special_fixpoint_aaaa:
  "''aaaa'' \<noteq> [] \<and> encode_non_special trained_aaaa ''aaaa'' = Inr ([256, 256], trained_aaaa)
   \<and> pairs trained_aaaa (256, 256) = None"
proof -
  have ne: "''aaaa'' \<noteq> []" by simp
  have bytes: "string_to_byte ''aaaa'' = [97, 97, 97, 97]" by (simp add: string_to_byte_def)
  have fixp: "encode_spec (pairs trained_aaaa) [97, 97, 97, 97] = [256, 256]"
    by (simp add: encode_spec.simps)
  from encode_non_special_fixpoint [OF ne, of trained_aaaa] show ?thesis
    unfolding bytes fixp by simp
qed

text \<open>
  C5. On the empty span \<^verbatim>\<open>_encode_non_special\<close> does not run its passes to a fixpoint
  and return the empty sequence: the bound \<^verbatim>\<open>indices.size() - 1\<close> of the first pass wraps
  around and the pass reads \<^verbatim>\<open>indices[0]\<close> and \<^verbatim>\<open>indices[1]\<close> outside the empty vector,
  on every tokenizer. The empty span is a non-special span that \<^verbatim>\<open>encode\<close> itself
  produces: with the special token \<^verbatim>\<open><END>\<close> it is the first split of the text
  \<^verbatim>\<open><END>a\<close>.
\<close>

theorem encode_non_special_empty_span_out_of_bounds:
  "encode_non_special s [] = Inl OutOfBounds
   \<and> special_splits rx [''<END>''] ''<END>a'' = Inr [[], ''<END>'', ''a'']"
  by (simp add: encode_non_special_empty special_splits_def token_splits.simps)

section \<open>Merge rules within one call of \<^verbatim>\<open>train\<close>\<close>

lemma adjacent_pairs_simps [simp]:
  "adjacent_pairs [] = {}"
  "adjacent_pairs [x] = {}"
  "adjacent_pairs (x # y # zs) = insert (x, y) (adjacent_pairs (y # zs))"
  by (simp_all add: adjacent_pairs_def)

lemma adjacent_pairs_tail: "adjacent_pairs zs \<subseteq> adjacent_pairs (y # zs)"
  by (cases zs) auto

lemma adjacent_pairs_members: "(u, v) \<in> adjacent_pairs xs \<Longrightarrow> u \<in> set xs \<and> v \<in> set xs"
  by (induction xs rule: induct_list012) auto

lemma nth_adjacent_pairs: "i + 1 < length xs \<Longrightarrow> (xs ! i, xs ! (i + 1)) \<in> adjacent_pairs xs"
  unfolding adjacent_pairs_def in_set_zip
  by (rule exI [of _ i]) (simp add: nth_tl)

lemma bump_keys: "bump k cs = Inr cs' \<Longrightarrow> fst ` set cs' = insert k (fst ` set cs)"
proof (induction cs arbitrary: cs')
  case Nil
  then show ?case by auto
next
  case (Cons kc rest)
  obtain k' c where kc: "kc = (k', c)" by (cases kc)
  show ?case
  proof (cases "k' = k")
    case True
    with Cons.prems kc show ?thesis by (auto split: if_splits)
  next
    case False
    with Cons.prems kc obtain rest' where r: "bump k rest = Inr rest'" and c: "cs' = (k', c) # rest'"
      by (auto split: sum.splits)
    from Cons.IH [OF r] c kc show ?thesis by auto
  qed
qed

lemma count_pairs_keys:
  "count_pairs indices i cs = Inr cs' \<Longrightarrow> fst ` set cs' \<subseteq> fst ` set cs \<union> adjacent_pairs indices"
proof (induction indices i cs rule: count_pairs.induct)
  case (1 indices i counts)
  show ?case
  proof (cases "i < size_minus_one (length indices)")
    case False
    with "1.prems" show ?thesis by (simp add: count_pairs.simps [of indices i counts])
  next
    case True
    note guard = True
    with "1.prems" have inside: "i + 1 < length indices"
      by (auto simp: count_pairs.simps [of indices i counts] split: if_splits)
    with "1.prems" guard obtain counts1 where
      b: "bump (indices ! i, indices ! (i + 1)) counts = Inr counts1" and
      rec: "count_pairs indices (i + 1) counts1 = Inr cs'"
      by (auto simp: count_pairs.simps [of indices i counts] split: sum.splits)
    from "1.IH" [OF guard inside b rec] bump_keys [OF b] nth_adjacent_pairs [OF inside]
    show ?thesis by auto
  qed
qed

lemma max_element_from_mem: "max_element_from largest xs \<in> set (largest # xs)"
  by (induction xs arbitrary: largest) (auto split: if_splits)

lemma iteration_order_set: "iteration_order iter \<Longrightarrow> set (iter xs) = set xs"
  by (metis iteration_order_def mset_eq_setD)

lemma most_frequent_pair_adjacent:
  assumes "iteration_order iter" and "most_frequent_pair iter indices = Inr (p, c)"
    and "\<not> (fst p = - 1 \<and> snd p = - 1)"
  shows "p \<in> adjacent_pairs indices"
proof -
  from assms(2) obtain counts where cp: "count_pairs indices 0 [] = Inr counts"
    by (auto simp: most_frequent_pair_def split: sum.splits)
  with assms(2,3) have ne: "counts \<noteq> []"
    by (auto simp: most_frequent_pair_def)
  with assms(2) cp obtain first rest where it: "iter counts = first # rest"
    and res: "(p, c) = max_element_from first rest"
    by (auto simp: most_frequent_pair_def split: list.splits)
  from res max_element_from_mem [of first rest] it have "(p, c) \<in> set (iter counts)" by simp
  with assms(1) have "(p, c) \<in> set counts" by (simp add: iteration_order_set)
  then have "p \<in> fst ` set counts" by force
  with count_pairs_keys [OF cp] show ?thesis by auto
qed

lemma rewrite_spec_hd:
  "rewrite_spec (y # zs) p n \<noteq> [] \<and> (hd (rewrite_spec (y # zs) p n) = y \<or> hd (rewrite_spec (y # zs) p n) = n)"
  by (cases zs) auto

lemma rewrite_spec_set: "set (rewrite_spec xs p n) \<subseteq> insert n (set xs)"
  by (induction xs p n rule: rewrite_spec.induct) auto

lemma rewrite_spec_adjacent:
  "(u, v) \<in> adjacent_pairs (rewrite_spec xs p n) \<Longrightarrow>
     u = n \<or> v = n \<or> ((u, v) \<in> adjacent_pairs xs \<and> (u, v) \<noteq> p)"
proof (induction xs p n rule: rewrite_spec.induct)
  case (1 x y zs p n)
  show ?case
  proof (cases "(x, y) = p")
    case True
    with "1.prems" have "(u, v) \<in> adjacent_pairs (n # rewrite_spec zs p n)" by simp
    then have "u = n \<or> (u, v) \<in> adjacent_pairs (rewrite_spec zs p n)"
      by (cases "rewrite_spec zs p n") auto
    with "1.IH"(1) [OF True] adjacent_pairs_tail [of zs y] show ?thesis by auto
  next
    case False
    define r where "r = rewrite_spec (y # zs) p n"
    from rewrite_spec_hd [of y zs p n] obtain h t where r: "r = h # t" and h: "h = y \<or> h = n"
      unfolding r_def by (cases "rewrite_spec (y # zs) p n") auto
    from "1.prems" False have "(u, v) \<in> adjacent_pairs (x # r)" by (simp add: r_def)
    with r have "(u, v) = (x, h) \<or> (u, v) \<in> adjacent_pairs r" by simp
    then show ?thesis
    proof
      assume "(u, v) = (x, h)"
      with h False show ?thesis by auto
    next
      assume "(u, v) \<in> adjacent_pairs r"
      with "1.IH"(2) [OF False] show ?thesis by (auto simp: r_def)
    qed
  qed
qed simp_all

lemma train_loop_distinct:
  "train_loop iter stop_early s indices = Inr (s', events) \<Longrightarrow>
     iteration_order iter \<Longrightarrow>
     \<forall>x\<in>set indices. x < next_id s \<Longrightarrow>
     \<forall>(u, v)\<in>used. u < next_id s \<and> v < next_id s \<Longrightarrow>
     used \<inter> adjacent_pairs indices = {} \<Longrightarrow>
     distinct (map fst events) \<and> fst ` set events \<inter> used = {}"
proof (induction iter stop_early s indices arbitrary: s' events used rule: train_loop.induct)
  case (1 iter stop_early s indices)
  note order = "1.prems"(2)
  show ?case
  proof (cases "vocab_size s < max_vocab_size s")
    case False
    with "1.prems"(1) show ?thesis by (simp add: train_loop.simps [of iter stop_early s indices])
  next
    case True
    note below = True
    from "1.prems"(1) below obtain pair cnt where
      mfp: "most_frequent_pair iter indices = Inr (pair, cnt)"
      by (auto simp: train_loop.simps [of iter stop_early s indices] split: sum.splits)
    show ?thesis
    proof (cases "(fst pair = - 1 \<and> snd pair = - 1) \<or> (stop_early \<and> cnt = 1)")
      case True
      with "1.prems"(1) below mfp show ?thesis
        by (auto simp: train_loop.simps [of iter stop_early s indices] split: if_splits)
    next
      case False
      then have c1: "\<not> (fst pair = - 1 \<and> snd pair = - 1)" and c2: "\<not> (stop_early \<and> cnt = 1)"
        by auto
      from "1.prems"(1) below mfp False obtain events' where
        rec: "train_loop iter stop_early (fst (record_merge s pair))
                (merge_pair indices pair (next_id s)) = Inr (s', events')" and
        ev: "events = (pair, next_id s, snd (record_merge s pair)) # events'"
        by (auto simp: train_loop.simps [of iter stop_early s indices] split: sum.splits)
      have sel: "pair \<in> adjacent_pairs indices"
        using order mfp c1 by (rule most_frequent_pair_adjacent)
      then have comp: "fst pair < next_id s \<and> snd pair < next_id s"
        using adjacent_pairs_members [of "fst pair" "snd pair" indices] "1.prems"(3) by simp
      let ?indices' = "merge_pair indices pair (next_id s)"
      have nxt: "next_id (fst (record_merge s pair)) = next_id s + 1" by simp
      have p2: "\<forall>x\<in>set ?indices'. x < next_id (fst (record_merge s pair))"
      proof
        fix x assume "x \<in> set ?indices'"
        with rewrite_spec_set [of indices pair "next_id s"] have "x = next_id s \<or> x \<in> set indices"
          unfolding merge_pair_rewrite by blast
        with "1.prems"(3) show "x < next_id (fst (record_merge s pair))"
          unfolding nxt by force
      qed
      have used_small: "\<And>u v. (u, v) \<in> insert pair used \<Longrightarrow> u < next_id s \<and> v < next_id s"
      proof -
        fix u v assume "(u, v) \<in> insert pair used"
        then consider "(u, v) = pair" | "(u, v) \<in> used" by blast
        then show "u < next_id s \<and> v < next_id s"
        proof cases
          case 1
          with comp show ?thesis by (metis fst_conv snd_conv)
        next
          case 2
          with "1.prems"(4) show ?thesis by blast
        qed
      qed
      have p3: "\<forall>(u, v)\<in>insert pair used. u < next_id (fst (record_merge s pair)) \<and> v < next_id (fst (record_merge s pair))"
        unfolding nxt using used_small by force
      have p4: "insert pair used \<inter> adjacent_pairs ?indices' = {}"
      proof (rule ccontr)
        assume "insert pair used \<inter> adjacent_pairs ?indices' \<noteq> {}"
        then obtain q where "q \<in> insert pair used" "q \<in> adjacent_pairs ?indices'" by blast
        then obtain u v where in_used: "(u, v) \<in> insert pair used"
          and in_adj: "(u, v) \<in> adjacent_pairs (rewrite_spec indices pair (next_id s))"
          unfolding merge_pair_rewrite by (cases q) blast
        from used_small [OF in_used] have "u \<noteq> next_id s" "v \<noteq> next_id s" by auto
        with rewrite_spec_adjacent [OF in_adj] have "(u, v) \<in> adjacent_pairs indices" "(u, v) \<noteq> pair"
          by blast+
        with in_used "1.prems"(5) show False by blast
      qed
      from "1.IH" [OF below mfp refl c1 c2 rec order p2 p3 p4]
      have ih: "distinct (map fst events')" "fst ` set events' \<inter> insert pair used = {}" by auto
      from sel "1.prems"(5) have "pair \<notin> used" by auto
      with ih show ?thesis by (auto simp: ev)
    qed
  qed
qed


lemma byte_range: "0 \<le> (of_char c :: int) \<and> (of_char c :: int) < 256"
proof -
  have "(of_char c :: int) = int (of_char c)" by (simp add: of_nat_of_char)
  moreover have "(of_char c :: nat) < 256" by simp
  ultimately show ?thesis by linarith
qed

lemma string_to_byte_range: "x \<in> set (string_to_byte input) \<Longrightarrow> 0 \<le> x \<and> x < 256"
  using byte_range by (auto simp: string_to_byte_def)

lemma record_merge_pairs: "pairs (fst (record_merge s p)) = (pairs s)(p \<mapsto> next_id s)"
  by (simp add: record_merge_def Let_def split: prod.splits)

lemma train_loop_pairs:
  "train_loop iter stop_early s indices = Inr (s', events) \<Longrightarrow>
     pairs s' = fold record_event events (pairs s)"
proof (induction iter stop_early s indices arbitrary: s' events rule: train_loop.induct)
  case (1 iter stop_early s indices)
  show ?case
  proof (cases "vocab_size s < max_vocab_size s")
    case False
    with "1.prems" show ?thesis by (simp add: train_loop.simps [of iter stop_early s indices])
  next
    case True
    note below = True
    from "1.prems" below obtain pair cnt where
      mfp: "most_frequent_pair iter indices = Inr (pair, cnt)"
      by (auto simp: train_loop.simps [of iter stop_early s indices] split: sum.splits)
    show ?thesis
    proof (cases "(fst pair = - 1 \<and> snd pair = - 1) \<or> (stop_early \<and> cnt = 1)")
      case True
      with "1.prems" below mfp show ?thesis
        by (auto simp: train_loop.simps [of iter stop_early s indices] split: if_splits)
    next
      case False
      then have c1: "\<not> (fst pair = - 1 \<and> snd pair = - 1)" and c2: "\<not> (stop_early \<and> cnt = 1)"
        by auto
      from "1.prems" below mfp False obtain events' where
        rec: "train_loop iter stop_early (fst (record_merge s pair))
                (merge_pair indices pair (next_id s)) = Inr (s', events')" and
        ev: "events = (pair, next_id s, snd (record_merge s pair)) # events'"
        by (auto simp: train_loop.simps [of iter stop_early s indices] split: sum.splits)
      have step: "pairs (fst (record_merge s pair)) =
                    record_event (pair, next_id s, snd (record_merge s pair)) (pairs s)"
        by (simp add: record_merge_pairs record_event_def)
      have "pairs s' = fold record_event events' (pairs (fst (record_merge s pair)))"
        using below mfp refl c1 c2 rec by (rule "1.IH")
      then show ?thesis
        unfolding ev step by simp
    qed
  qed
qed

lemma record_event_other: "q \<noteq> fst e \<Longrightarrow> record_event e m q = m q"
  by (simp add: record_event_def)

lemma fold_record_event_other:
  "q \<notin> fst ` set events \<Longrightarrow> fold record_event events m q = m q"
  by (induction events arbitrary: m) (auto simp: record_event_other)

lemma fold_record_event_recorded:
  "distinct (map fst events) \<Longrightarrow> e \<in> set events \<Longrightarrow>
     fold record_event events m (fst e) = Some (fst (snd e))"
proof (induction events arbitrary: m)
  case Nil
  then show ?case by simp
next
  case (Cons a events)
  show ?case
  proof (cases "e = a")
    case True
    with Cons.prems(1) have "fst e \<notin> fst ` set events" by auto
    then have "fold record_event events (record_event a m) (fst e) = record_event a m (fst e)"
      by (rule fold_record_event_other)
    moreover have "record_event a m (fst a) = Some (fst (snd a))"
      by (simp add: record_event_def)
    ultimately show ?thesis using True by simp
  next
    case False
    with Cons show ?thesis by auto
  qed
qed

lemma consecutive_distinct: "distinct (map (\<lambda>k. (n::int) + int k) [0..<m])"
  by (simp add: distinct_map inj_on_def)

text \<open>
  C8, as the code has it. Within one call of \<^verbatim>\<open>train\<close> (on a tokenizer whose counter is
  at least 256, as after construction) no pair is selected twice: the pairs of the accepted
  merges are pairwise distinct and so are their new IDs, every pair recorded in the call
  maps to the ID minted for it when the call returns, and every other key of the merge
  table is as before the call.
\<close>

theorem train_selects_each_pair_once:
  assumes "iteration_order iter" and "256 \<le> next_id s"
    and "train iter s input stop_early = Inr (s', events)"
  shows "distinct (map fst events)
     \<and> distinct (map (\<lambda>e. fst (snd e)) events)
     \<and> (\<forall>e\<in>set events. pairs s' (fst e) = Some (fst (snd e)))
     \<and> (\<forall>q. q \<notin> fst ` set events \<longrightarrow> pairs s' q = pairs s q)"
proof -
  from assms(3) have run: "train_loop iter stop_early s (string_to_byte input) = Inr (s', events)"
    by (simp add: train_def)
  have small: "\<forall>x\<in>set (string_to_byte input). x < next_id s"
    using string_to_byte_range assms(2) by fastforce
  have "distinct (map fst events) \<and> fst ` set events \<inter> {} = {}"
    using run assms(1) small by (rule train_loop_distinct) simp_all
  then have d: "distinct (map fst events)" by simp
  have ids: "distinct (map (\<lambda>e. fst (snd e)) events)"
    using train_loop_size [OF run] consecutive_distinct [of "next_id s" "length events"] by simp
  have tab: "pairs s' = fold record_event events (pairs s)"
    using run by (rule train_loop_pairs)
  show ?thesis
    using d ids by (simp add: tab fold_record_event_other fold_record_event_recorded)
qed

lemma train_aaaa_258:
  "train (\<lambda>xs. xs) (fresh_tokenizer 258) ''aaaa'' False =
     Inr ((fresh_tokenizer 258)\<lparr>pairs := [(97, 97) \<mapsto> 256, (256, 256) \<mapsto> 257],
            id_to_token := (id_to_token (fresh_tokenizer 258))(256 \<mapsto> ''aa'', 257 \<mapsto> ''aaaa''),
            next_id := 258\<rparr>, [((97, 97), 256, ''aa''), ((256, 256), 257, ''aaaa'')])"
  by (simp add: train_def string_to_byte_def train_loop.simps most_frequent_pair_def
      count_pairs.simps size_minus_one_def vocab_size_def fresh_tokenizer_def reset_def
      int_max_def merge_pair_rewrite record_merge_def map_index_def Let_def char_of_def)

theorem train_selects_each_pair_once_witness:
  "iteration_order (\<lambda>xs :: counts. xs) \<and> 256 \<le> next_id (fresh_tokenizer 258)
   \<and> train (\<lambda>xs. xs) (fresh_tokenizer 258) ''aaaa'' False =
     Inr ((fresh_tokenizer 258)\<lparr>pairs := [(97, 97) \<mapsto> 256, (256, 256) \<mapsto> 257],
            id_to_token := (id_to_token (fresh_tokenizer 258))(256 \<mapsto> ''aa'', 257 \<mapsto> ''aaaa''),
            next_id := 258\<rparr>, [((97, 97), 256, ''aa''), ((256, 256), 257, ''aaaa'')])
   \<and> distinct [(97, 97), (256, 256 :: int)] \<and> distinct [256, 257 :: int]"
proof -
  have order: "iteration_order (\<lambda>xs :: counts. xs)" by (simp add: iteration_order_def)
  have start: "256 \<le> next_id (fresh_tokenizer 258)" by (simp add: fresh_tokenizer_def reset_def)
  from train_selects_each_pair_once [OF order start train_aaaa_258] order start train_aaaa_258
  show ?thesis by simp
qed

text \<open>
  Across calls the rules are revised. Every call of \<^verbatim>\<open>train\<close> starts again from the raw
  bytes of its corpus: a second call on \<^verbatim>\<open>aa\<close> selects the pair \<open>(97, 97)\<close> that the
  first call recorded with the ID 256, and overwrites its entry with the new ID 257.
\<close>

theorem retrain_overwrites_counterexample:
  "train (\<lambda>xs. xs) (fresh_tokenizer 258) ''aa'' False =
     Inr ((fresh_tokenizer 258)\<lparr>pairs := [(97, 97) \<mapsto> 256],
            id_to_token := (id_to_token (fresh_tokenizer 258))(256 \<mapsto> ''aa''),
            next_id := 257\<rparr>, [((97, 97), 256, ''aa'')])
   \<and> train (\<lambda>xs. xs)
        ((fresh_tokenizer 258)\<lparr>pairs := [(97, 97) \<mapsto> 256],
            id_to_token := (id_to_token (fresh_tokenizer 258))(256 \<mapsto> ''aa''),
            next_id := 257\<rparr>) ''aa'' False =
     Inr ((fresh_tokenizer 258)\<lparr>pairs := [(97, 97) \<mapsto> 257],
            id_to_token := (id_to_token (fresh_tokenizer 258))(256 \<mapsto> ''aa'', 257 \<mapsto> ''aa''),
            next_id := 258\<rparr>, [((97, 97), 257, ''aa'')])"
  by (simp add: train_def string_to_byte_def train_loop.simps most_frequent_pair_def
      count_pairs.simps size_minus_one_def vocab_size_def fresh_tokenizer_def reset_def
      int_max_def merge_pair_rewrite record_merge_def map_index_def Let_def char_of_def)

section \<open>Encoding an empty span\<close>

text \<open>
  C1. The empty text has no substring equal to a special token, yet \<^verbatim>\<open>encode\<close> of the
  empty text does not return the empty sequence. Without special tokens it goes straight to
  \<^verbatim>\<open>_encode_non_special\<close>; with the token \<^verbatim>\<open><END>\<close> registered the token iterator
  yields the whole (empty) input as its only split. Either way the loop bound
  \<^verbatim>\<open>indices.size() - 1\<close> wraps around on the empty vector and the first turn reads
  \<^verbatim>\<open>indices[0]\<close> and \<^verbatim>\<open>indices[1]\<close> outside it.
\<close>

theorem encode_empty_text_out_of_bounds:
  "encode rx iter (fresh_tokenizer 257) [] = Inl OutOfBounds
   \<and> register_special_token (fresh_tokenizer 257) ''<END>'' = Inr with_end_token
   \<and> encode rx (\<lambda>xs. xs) with_end_token [] = Inl OutOfBounds"
  by (simp add: encode_def encode_non_special_empty register_special_token_def int_max_def
      fresh_tokenizer_def reset_def special_splits_def token_splits.simps)

text \<open>
  C4. A text that begins with a special-token literal, or that places two literals side
  by side, is not encoded: the token iterator yields the empty text before the first match
  (or between the two matches) as a split of its own, and \<^verbatim>\<open>_encode_non_special\<close> reads
  outside the empty vector.
\<close>

theorem encode_leading_special_out_of_bounds:
  "register_special_token (fresh_tokenizer 257) ''<END>'' = Inr with_end_token
   \<and> encode rx (\<lambda>xs. xs) with_end_token ''<END>a'' = Inl OutOfBounds
   \<and> encode rx (\<lambda>xs. xs) with_end_token ''a<END><END>b'' = Inl OutOfBounds"
  by (simp add: encode_def encode_non_special_empty register_special_token_def int_max_def
      fresh_tokenizer_def reset_def special_splits_def token_splits.simps
      encode_non_special_spec encode_spec.simps string_to_byte_def alist_index_def)

section \<open>Round trip on the texts that are encoded\<close>

text \<open>
  The failures above are the only ones: on a consistent tokenizer, whenever \<^verbatim>\<open>encode\<close>
  returns, \<^verbatim>\<open>decode\<close> gives the text back (the splits of the library being the pieces
  of the input). Every tokenizer reached through the public operations is consistent, and
  a non-empty text in which no special token occurs is always encoded when the special
  tokens are literal.
\<close>

lemma consistent_fresh: "consistent (fresh_tokenizer m)"
  by (simp add: consistent_def fresh_tokenizer_def reset_def)

lemma plain_id_text: "consistent s \<Longrightarrow> plain_id s x \<Longrightarrow> token_text s x = token_of s x"
proof -
  assume c: "consistent s" and p: "plain_id s x"
  have "id_to_special s x = None"
  proof (cases "0 \<le> x \<and> x < 256")
    case True
    show ?thesis
    proof (cases "id_to_special s x")
      case (Some t)
      with c have "256 \<le> x" unfolding consistent_def by blast
      with True show ?thesis by simp
    qed simp
  next
    case False
    with p obtain a b where "pairs s (a, b) = Some x" by (auto simp: plain_id_def)
    with c show ?thesis unfolding consistent_def by blast
  qed
  then show ?thesis by (simp add: token_text_def token_of_def)
qed

lemma byte_token: "consistent s \<Longrightarrow> token_of s (of_char c) = [c]"
proof -
  assume c: "consistent s"
  from byte_range [of c] c have "id_to_token s (of_char c) = Some [char_of (of_char c :: int)]"
    unfolding consistent_def by blast
  then show ?thesis by (simp add: token_of_def)
qed

lemma bytes_text: "consistent s \<Longrightarrow> concat (map (token_of s) (string_to_byte input)) = input"
  by (induction input) (simp_all add: string_to_byte_def byte_token)

lemma bytes_plain: "list_all (plain_id s) (string_to_byte input)"
  using string_to_byte_range [of _ input] by (auto simp: list_all_iff plain_id_def)

lemma merge_known_spec_text:
  "consistent s \<Longrightarrow>
     concat (map (token_of s) (merge_known_spec (pairs s) xs)) = concat (map (token_of s) xs)"
proof (induction "pairs s" xs rule: merge_known_spec.induct)
  case (1 x y zs)
  show ?case
  proof (cases "pairs s (x, y)")
    case None
    with 1 show ?thesis by simp
  next
    case (Some n)
    with "1.prems" have "token_of s n = token_of s x @ token_of s y"
      unfolding consistent_def by blast
    with 1 Some show ?thesis by simp
  qed
qed simp_all

lemma merge_known_spec_plain:
  "list_all (plain_id s) xs \<Longrightarrow> list_all (plain_id s) (merge_known_spec (pairs s) xs)"
proof (induction "pairs s" xs rule: merge_known_spec.induct)
  case (1 x y zs)
  show ?case
  proof (cases "pairs s (x, y)")
    case None
    with 1 show ?thesis by simp
  next
    case (Some n)
    then have "plain_id s n" by (auto simp: plain_id_def)
    with 1 Some show ?thesis by simp
  qed
qed simp_all

lemma encode_spec_text:
  "consistent s \<Longrightarrow>
     concat (map (token_of s) (encode_spec (pairs s) xs)) = concat (map (token_of s) xs)"
proof (induction "pairs s" xs rule: encode_spec.induct)
  case (1 xs)
  show ?case
  proof (cases "merge_known_spec (pairs s) xs = xs")
    case True
    then show ?thesis by (simp add: encode_spec.simps [of "pairs s" xs])
  next
    case False
    then have "encode_spec (pairs s) xs = encode_spec (pairs s) (merge_known_spec (pairs s) xs)"
      by (simp add: encode_spec.simps [of "pairs s" xs])
    with "1.hyps" [OF False "1.prems"] merge_known_spec_text [OF "1.prems", of xs]
    show ?thesis by simp
  qed
qed

lemma encode_spec_plain:
  "list_all (plain_id s) xs \<Longrightarrow> list_all (plain_id s) (encode_spec (pairs s) xs)"
proof (induction "pairs s" xs rule: encode_spec.induct)
  case (1 xs)
  show ?case
  proof (cases "merge_known_spec (pairs s) xs = xs")
    case True
    with "1.prems" show ?thesis by (simp add: encode_spec.simps [of "pairs s" xs])
  next
    case False
    then have "encode_spec (pairs s) xs = encode_spec (pairs s) (merge_known_spec (pairs s) xs)"
      by (simp add: encode_spec.simps [of "pairs s" xs])
    with "1.hyps" [OF False merge_known_spec_plain [OF "1.prems"]]
    show ?thesis by simp
  qed
qed

lemma plain_ids_text:
  "consistent s \<Longrightarrow> list_all (plain_id s) xs \<Longrightarrow> text_of s xs = concat (map (token_of s) xs)"
  by (induction xs) (simp_all add: text_of_def plain_id_text)

lemma encode_non_special_text:
  assumes "consistent s" and "encode_non_special s span = Inr (ids, s')"
  shows "text_of s ids = span \<and> s' = s"
proof -
  from assms(2) have ne: "span \<noteq> []"
    by (auto simp: encode_non_special_empty)
  with assms(2) have ids: "ids = encode_spec (pairs s) (string_to_byte span)" and same: "s' = s"
    by (auto simp: encode_non_special_spec)
  have "list_all (plain_id s) ids"
    unfolding ids by (rule encode_spec_plain [OF bytes_plain])
  with assms(1) have "text_of s ids = concat (map (token_of s) ids)" by (rule plain_ids_text)
  also have "\<dots> = concat (map (token_of s) (string_to_byte span))"
    unfolding ids using assms(1) by (rule encode_spec_text)
  also have "\<dots> = span" using assms(1) by (rule bytes_text)
  finally show ?thesis using same by simp
qed

lemma text_of_append: "text_of s (xs @ ys) = text_of s xs @ text_of s ys"
  by (simp add: text_of_def)

lemma encode_splits_text:
  "consistent s \<Longrightarrow> encode_splits s splits acc = Inr (ids, s') \<Longrightarrow>
     text_of s ids = text_of s acc @ concat splits \<and> s' = s"
proof (induction splits arbitrary: acc)
  case Nil
  then show ?case by simp
next
  case (Cons split rest)
  show ?case
  proof (cases "map_of (special_to_id s) split")
    case (Some v)
    then have idx: "alist_index (special_to_id s) split = (v, special_to_id s)"
      by (simp add: alist_index_found)
    with Cons.prems(2) Some have rec: "encode_splits s rest (acc @ [v]) = Inr (ids, s')" by simp
    from Cons.prems(1) Some have "id_to_special s v = Some split"
      unfolding consistent_def by blast
    then have "text_of s [v] = split" by (simp add: text_of_def token_text_def)
    with Cons.IH [OF Cons.prems(1) rec] show ?thesis by (simp add: text_of_append)
  next
    case None
    with Cons.prems(2) obtain xs s1 where
      ns: "encode_non_special s split = Inr (xs, s1)" and
      rest: "encode_splits s1 rest (acc @ xs) = Inr (ids, s')"
      by (auto split: sum.splits)
    from encode_non_special_text [OF Cons.prems(1) ns] have t: "text_of s xs = split" and "s1 = s"
      by simp_all
    with rest have "encode_splits s rest (acc @ xs) = Inr (ids, s')" by simp
    from Cons.IH [OF Cons.prems(1) this] t show ?thesis by (simp add: text_of_append)
  qed
qed

lemma token_splits_concat: "concat (token_splits alts first input) = input"
proof (induction alts first input rule: token_splits.induct)
  case (1 alts first input)
  show ?case
  proof (cases "regex_search alts input")
    case None
    then show ?thesis by (simp add: token_splits.simps [of alts first input])
  next
    case (Some m)
    obtain pre t suf where m: "m = (pre, t, suf)" by (cases m)
    from "1.IH" [OF Some [unfolded m] refl refl] have rest: "concat (token_splits alts False suf) = suf" .
    have "token_splits alts first input = pre # t # token_splits alts False suf"
      using Some m by (simp add: token_splits.simps [of alts first input])
    moreover have "input = pre @ t @ suf"
      using regex_search_Some [OF Some [unfolded m]] by simp
    ultimately show ?thesis using rest by simp
  qed
qed

lemma special_splits_concat:
  "splits_input rx \<Longrightarrow> special_splits rx tokens input = Inr splits \<Longrightarrow> concat splits = input"
  by (auto simp: special_splits_def splits_input_def token_splits_concat split: option.splits)

lemma encode_text:
  assumes "consistent s" and "splits_input rx" and "encode rx iter s input = Inr (ids, s')"
  shows "text_of s ids = input \<and> s' = s"
proof (cases "special_to_id s = []")
  case True
  with assms(3) have "encode_non_special s input = Inr (ids, s')" by (simp add: encode_def)
  with assms(1) show ?thesis by (rule encode_non_special_text)
next
  case False
  with assms(3) obtain splits where
    sp: "special_splits rx (map fst (iter (special_to_id s))) input = Inr splits" and
    en: "encode_splits s splits [] = Inr (ids, s')"
    by (auto simp: encode_def split: if_splits sum.splits)
  from encode_splits_text [OF assms(1) en] special_splits_concat [OF assms(2) sp]
  show ?thesis by (simp add: text_of_def)
qed

lemma decode_text: "decode s ids = Inr (text_of s ids, snd (decode_loop s ids []))"
  by (simp add: decode_def decode_loop_result text_of_def)

lemma round_trip:
  "consistent s \<Longrightarrow> splits_input rx \<Longrightarrow> encode rx iter s input = Inr (ids, s') \<Longrightarrow>
     \<exists>s''. decode s' ids = Inr (input, s'')"
  using encode_text [of s rx iter input ids s'] decode_text [of s ids] by auto


lemma consistent_register:
  assumes c: "consistent s" and r: "register_special_token s t = Inr s'"
  shows "consistent s'"
proof (cases "map_of (special_to_id s) t")
  case (Some i)
  with r have "s' = s" by (simp add: register_special_token_def)
  with c show ?thesis by simp
next
  case None
  let ?n = "next_id s"
  from r None have s': "s' = s\<lparr>special_to_id := special_to_id s @ [(t, ?n)],
                                 id_to_special := (id_to_special s)(?n \<mapsto> t),
                                 next_id := ?n + 1\<rparr>"
    by (auto simp: register_special_token_def split: if_splits)
  have tok: "token_of s' = token_of s" by (simp add: s' token_of_def fun_eq_iff)
  have v0: "256 \<le> next_id s'" using c by (simp add: s' consistent_def)
  have v1: "\<forall>i. 0 \<le> i \<and> i < 256 \<longrightarrow> id_to_token s' i = Some [char_of i]"
    using c by (simp add: s' consistent_def)
  have v3: "\<forall>i u. id_to_special s' i = Some u \<longrightarrow> 256 \<le> i \<and> i < next_id s'"
  proof (intro allI impI)
    fix i u assume a: "id_to_special s' i = Some u"
    show "256 \<le> i \<and> i < next_id s'"
    proof (cases "i = ?n")
      case True
      with c show ?thesis by (simp add: s' consistent_def)
    next
      case False
      with a have "id_to_special s i = Some u" by (simp add: s')
      with c have "256 \<le> i \<and> i < ?n" unfolding consistent_def by blast
      then show ?thesis by (simp add: s')
    qed
  qed
  have v2: "\<forall>a b n. pairs s' (a, b) = Some n \<longrightarrow>
            256 \<le> n \<and> n < next_id s' \<and> a < next_id s' \<and> b < next_id s'
            \<and> id_to_special s' n = None \<and> token_of s' n = token_of s' a @ token_of s' b"
  proof (intro allI impI)
    fix a b n assume "pairs s' (a, b) = Some n"
    then have "pairs s (a, b) = Some n" by (simp add: s')
    with c have old: "256 \<le> n \<and> n < ?n \<and> a < ?n \<and> b < ?n
            \<and> id_to_special s n = None \<and> token_of s n = token_of s a @ token_of s b"
      unfolding consistent_def by blast
    then show "256 \<le> n \<and> n < next_id s' \<and> a < next_id s' \<and> b < next_id s'
            \<and> id_to_special s' n = None \<and> token_of s' n = token_of s' a @ token_of s' b"
      unfolding tok by (simp add: s')
  qed
  have v5: "\<forall>u i. map_of (special_to_id s') u = Some i \<longrightarrow> id_to_special s' i = Some u"
  proof (intro allI impI)
    fix u i assume a: "map_of (special_to_id s') u = Some i"
    show "id_to_special s' i = Some u"
    proof (cases "map_of (special_to_id s) u")
      case (Some j)
      with a have "i = j" by (simp add: s' map_add_def)
      with Some c have sp: "id_to_special s i = Some u" unfolding consistent_def by blast
      with c have "i < ?n" unfolding consistent_def by blast
      with sp show ?thesis by (simp add: s')
    next
      case None
      with a have "u = t \<and> i = ?n" by (auto simp: s' map_add_def split: if_splits)
      then show ?thesis by (simp add: s')
    qed
  qed
  from v0 v1 v2 v3 v5 show ?thesis unfolding consistent_def by blast
qed

lemma record_merge_tokens:
  "id_to_token (fst (record_merge s (a, b))) =
     (\<lambda>i. if i = next_id s then Some (token_of s a @ token_of s b)
          else if (i = a \<or> i = b) \<and> id_to_token s i = None then Some []
          else id_to_token s i)"
  by (auto simp: record_merge_def map_index_def token_of_def Let_def fun_eq_iff
           split: option.splits prod.splits)

lemma record_merge_other:
  "id_to_special (fst (record_merge s p)) = id_to_special s"
  "special_to_id (fst (record_merge s p)) = special_to_id s"
  by (simp_all add: record_merge_def Let_def split: prod.splits)

lemma consistent_record_merge:
  assumes c: "consistent s" and a: "a < next_id s" and b: "b < next_id s"
  shows "consistent (fst (record_merge s (a, b)))"
proof -
  let ?s' = "fst (record_merge s (a, b))"
  let ?n = "next_id s"
  have tok: "\<And>i. token_of ?s' i = (if i = ?n then token_of s a @ token_of s b else token_of s i)"
    by (auto simp: token_of_def record_merge_tokens)
  have v0: "256 \<le> next_id ?s'" using c by (simp add: consistent_def)
  have v1: "\<forall>i. 0 \<le> i \<and> i < 256 \<longrightarrow> id_to_token ?s' i = Some [char_of i]"
    using c by (auto simp: consistent_def record_merge_tokens)
  have v3: "\<forall>i u. id_to_special ?s' i = Some u \<longrightarrow> 256 \<le> i \<and> i < next_id ?s'"
    using c by (fastforce simp: consistent_def record_merge_other)
  have fresh: "id_to_special s ?n = None"
  proof (cases "id_to_special s ?n")
    case (Some u)
    with c have "?n < ?n" unfolding consistent_def by blast
    then show ?thesis by simp
  qed simp
  have v2: "\<forall>x y n. pairs ?s' (x, y) = Some n \<longrightarrow>
            256 \<le> n \<and> n < next_id ?s' \<and> x < next_id ?s' \<and> y < next_id ?s'
            \<and> id_to_special ?s' n = None \<and> token_of ?s' n = token_of ?s' x @ token_of ?s' y"
  proof (intro allI impI)
    fix x y n assume p: "pairs ?s' (x, y) = Some n"
    show "256 \<le> n \<and> n < next_id ?s' \<and> x < next_id ?s' \<and> y < next_id ?s'
            \<and> id_to_special ?s' n = None \<and> token_of ?s' n = token_of ?s' x @ token_of ?s' y"
    proof (cases "(x, y) = (a, b)")
      case True
      with p have "n = ?n" by (simp add: record_merge_pairs)
      with True a b c fresh show ?thesis
        by (simp add: tok record_merge_other consistent_def)
    next
      case False
      with p have "pairs s (x, y) = Some n" by (auto simp: record_merge_pairs split: if_splits)
      with c have old: "256 \<le> n \<and> n < ?n \<and> x < ?n \<and> y < ?n
            \<and> id_to_special s n = None \<and> token_of s n = token_of s x @ token_of s y"
        unfolding consistent_def by blast
      then show ?thesis by (simp add: tok record_merge_other)
    qed
  qed
  have v5: "\<forall>u i. map_of (special_to_id ?s') u = Some i \<longrightarrow> id_to_special ?s' i = Some u"
    using c by (simp add: consistent_def record_merge_other)
  from v0 v1 v2 v3 v5 show ?thesis unfolding consistent_def by blast
qed

lemma consistent_train_loop:
  "train_loop iter stop_early s indices = Inr (s', events) \<Longrightarrow>
     iteration_order iter \<Longrightarrow> consistent s \<Longrightarrow> \<forall>x\<in>set indices. x < next_id s \<Longrightarrow>
     consistent s'"
proof (induction iter stop_early s indices arbitrary: s' events rule: train_loop.induct)
  case (1 iter stop_early s indices)
  show ?case
  proof (cases "vocab_size s < max_vocab_size s")
    case False
    with "1.prems"(1,3) show ?thesis by (simp add: train_loop.simps [of iter stop_early s indices])
  next
    case True
    note below = True
    from "1.prems"(1) below obtain pair cnt where
      mfp: "most_frequent_pair iter indices = Inr (pair, cnt)"
      by (auto simp: train_loop.simps [of iter stop_early s indices] split: sum.splits)
    show ?thesis
    proof (cases "(fst pair = - 1 \<and> snd pair = - 1) \<or> (stop_early \<and> cnt = 1)")
      case True
      with "1.prems"(1,3) below mfp show ?thesis
        by (auto simp: train_loop.simps [of iter stop_early s indices] split: if_splits)
    next
      case False
      then have c1: "\<not> (fst pair = - 1 \<and> snd pair = - 1)" and c2: "\<not> (stop_early \<and> cnt = 1)"
        by auto
      from "1.prems"(1) below mfp False obtain events' where
        rec: "train_loop iter stop_early (fst (record_merge s pair))
                (merge_pair indices pair (next_id s)) = Inr (s', events')"
        by (auto simp: train_loop.simps [of iter stop_early s indices] split: sum.splits)
      have sel: "pair \<in> adjacent_pairs indices"
        using "1.prems"(2) mfp c1 by (rule most_frequent_pair_adjacent)
      then have comp: "fst pair < next_id s" "snd pair < next_id s"
        using adjacent_pairs_members [of "fst pair" "snd pair" indices] "1.prems"(4) by simp_all
      have cons: "consistent (fst (record_merge s pair))"
        using consistent_record_merge [OF "1.prems"(3) comp] by simp
      have small: "\<forall>x\<in>set (merge_pair indices pair (next_id s)). x < next_id (fst (record_merge s pair))"
      proof
        fix x assume "x \<in> set (merge_pair indices pair (next_id s))"
        with rewrite_spec_set [of indices pair "next_id s"] have "x = next_id s \<or> x \<in> set indices"
          unfolding merge_pair_rewrite by blast
        with "1.prems"(4) show "x < next_id (fst (record_merge s pair))" by force
      qed
      from "1.IH" [OF below mfp refl c1 c2 rec "1.prems"(2) cons small] show ?thesis .
    qed
  qed
qed

lemma consistent_train:
  assumes "consistent s" and "iteration_order iter" and "train iter s input stop_early = Inr (s', events)"
  shows "consistent s'"
proof -
  from assms(1) have "256 \<le> next_id s" by (simp add: consistent_def)
  with string_to_byte_range have "\<forall>x\<in>set (string_to_byte input). x < next_id s" by fastforce
  with assms show ?thesis by (auto simp: train_def intro: consistent_train_loop)
qed

lemma consistent_decode:
  assumes c: "consistent s" and d: "decode s ids = Inr (text, s')"
  shows "consistent s'"
proof -
  let ?f = "\<lambda>j. if j \<in> set ids \<and> id_to_special s j = None \<and> id_to_token s j = None
                then Some [] else id_to_token s j"
  from d have s': "s' = s\<lparr>id_to_token := ?f\<rparr>" by (simp add: decode_def decode_loop_result)
  have tok: "token_of s' = token_of s" by (auto simp: s' token_of_def fun_eq_iff)
  have v1: "\<forall>i. 0 \<le> i \<and> i < 256 \<longrightarrow> id_to_token s' i = Some [char_of i]"
    using c by (simp add: s' consistent_def)
  from c v1 show ?thesis unfolding consistent_def tok by (simp add: s')
qed

lemma consistent_reset: "consistent (reset s)"
  by (simp add: consistent_def reset_def)

lemma reachable_consistent: "reachable s \<Longrightarrow> consistent s"
proof (induction rule: reachable.induct)
  case (constructed m s)
  then show ?case by (auto simp: construct_def consistent_fresh split: if_splits)
next
  case (was_reset s)
  show ?case by (rule consistent_reset)
next
  case (registered s t s')
  then show ?case by (auto intro: consistent_register)
next
  case (trained s iter input stop_early s' events)
  then show ?case by (auto intro: consistent_train)
next
  case (encoded s rx iter' input ids s')
  then show ?case by (auto dest: encode_same_state)
next
  case (decoded s ids decoded_text s')
  then show ?case by (auto intro: consistent_decode)
qed

lemma round_trip_reachable:
  "reachable s \<Longrightarrow> splits_input rx \<Longrightarrow> encode rx iter s input = Inr (ids, s') \<Longrightarrow>
     \<exists>s''. decode s' ids = Inr (input, s'')"
  by (auto dest: reachable_consistent intro: round_trip)

lemma occurs_in_substring: "occurs_in t input \<longleftrightarrow> (\<exists>pre suf. input = pre @ t @ suf)"
proof (induction input)
  case Nil
  then show ?case by auto
next
  case (Cons c cs)
  show ?case
  proof
    assume "occurs_in t (c # cs)"
    then consider "take (length t) (c # cs) = t" | "occurs_in t cs" by auto
    then show "\<exists>pre suf. c # cs = pre @ t @ suf"
    proof cases
      case 1
      then have "c # cs = [] @ t @ drop (length t) (c # cs)"
        by (metis append_Nil append_take_drop_id)
      then show ?thesis by blast
    next
      case 2
      with Cons.IH obtain pre suf where "cs = pre @ t @ suf" by blast
      then have "c # cs = (c # pre) @ t @ suf" by simp
      then show ?thesis by blast
    qed
  next
    assume "\<exists>pre suf. c # cs = pre @ t @ suf"
    then obtain pre suf where eq: "c # cs = pre @ t @ suf" by blast
    show "occurs_in t (c # cs)"
    proof (cases pre)
      case Nil
      with eq have "take (length t) (c # cs) = t" by simp
      then show ?thesis by simp
    next
      case (Cons d pre')
      with eq have "cs = pre' @ t @ suf" by simp
      with Cons.IH show ?thesis by auto
    qed
  qed
qed

lemma literals_Some:
  "\<forall>t\<in>set tokens. literal_token t \<Longrightarrow>
     \<exists>alts. literals tokens = Some alts \<and> map (\<lambda>(c, cs). c # cs) alts = tokens"
proof (induction tokens)
  case Nil
  then show ?case by simp
next
  case (Cons t tokens)
  then obtain alts where rest: "literals tokens = Some alts" "map (\<lambda>(c, cs). c # cs) alts = tokens"
    by auto
  from Cons.prems have "literal_token t" by simp
  then obtain c cs where t: "t = c # cs" and "CHR 0x5C \<notin> set (c # cs)"
    by (cases t) (auto simp: literal_token_def)
  then have "literal t = Some (c, cs)" by simp
  with rest t show ?case by simp
qed

lemma match_here_None:
  "\<forall>t\<in>(\<lambda>(c, cs). c # cs) ` set alts. take (length t) input \<noteq> t \<Longrightarrow> match_here alts input = None"
  by (induction alts) auto

lemma regex_search_None:
  "\<forall>t\<in>(\<lambda>(c, cs). c # cs) ` set alts. \<not> occurs_in t input \<Longrightarrow> regex_search alts input = None"
proof (induction input)
  case Nil
  then show ?case by simp
next
  case (Cons c cs)
  then have "match_here alts (c # cs) = None" by (intro match_here_None) auto
  moreover from Cons have "regex_search alts cs = None" by auto
  ultimately show ?case by simp
qed

lemma occurs_in_self: "occurs_in t t"
  by (cases t) simp_all

lemma encode_plain_text:
  assumes order: "iteration_order iter"
    and lit: "\<forall>t\<in>fst ` set (special_to_id s). literal_token t"
    and ne: "input \<noteq> []"
    and plain: "\<forall>t\<in>fst ` set (special_to_id s). \<not> occurs_in t input"
  shows "encode rx iter s input = Inr (encode_spec (pairs s) (string_to_byte input), s)"
proof (cases "special_to_id s = []")
  case True
  with ne show ?thesis by (simp add: encode_def encode_non_special_spec)
next
  case False
  let ?tokens = "map fst (iter (special_to_id s))"
  have tokens: "set ?tokens = fst ` set (special_to_id s)"
    using order by (simp add: iteration_order_set)
  with lit have "\<forall>t\<in>set ?tokens. literal_token t" by simp
  then obtain alts where alts: "literals ?tokens = Some alts"
    and strings: "map (\<lambda>(c, cs). c # cs) alts = ?tokens"
    using literals_Some [of ?tokens] by blast
  from strings have "(\<lambda>(c, cs). c # cs) ` set alts = set ?tokens"
    by (metis set_map)
  with plain tokens have "regex_search alts input = None"
    by (intro regex_search_None) simp
  then have "token_splits alts True input = [input]"
    by (simp add: token_splits.simps [of alts True input])
  with alts have sp: "special_splits rx ?tokens input = Inr [input]"
    by (simp add: special_splits_def)
  have "map_of (special_to_id s) input = None"
  proof (cases "map_of (special_to_id s) input")
    case (Some i)
    then have "input \<in> fst ` set (special_to_id s)" by (metis map_of_SomeD fst_conv image_eqI)
    with plain occurs_in_self show ?thesis by blast
  qed simp
  with ne have "encode_splits s [input] [] = Inr (encode_spec (pairs s) (string_to_byte input), s)"
    by (simp add: encode_non_special_spec)
  with False sp show ?thesis by (simp add: encode_def)
qed

lemma round_trip_plain_text:
  assumes "consistent s" and "iteration_order iter"
    and "\<forall>t\<in>fst ` set (special_to_id s). literal_token t"
    and "input \<noteq> []"
    and "\<forall>t\<in>fst ` set (special_to_id s). \<not> occurs_in t input"
  shows "\<exists>ids s'. encode rx iter s input = Inr (ids, s) \<and> decode s ids = Inr (input, s')"
proof -
  have enc: "encode rx iter s input = Inr (encode_spec (pairs s) (string_to_byte input), s)"
    using assms(2-5) by (rule encode_plain_text)
  have "text_of s (encode_spec (pairs s) (string_to_byte input)) = input"
    using encode_non_special_text [OF assms(1), of input _ s] assms(4)
    by (simp add: encode_non_special_spec)
  with enc decode_text [of s "encode_spec (pairs s) (string_to_byte input)"] show ?thesis by auto
qed

section \<open>Training returns on a non-empty corpus\<close>

text \<open>
  The results on \<^verbatim>\<open>train\<close> above speak of the calls that return. These are all the
  calls on a non-empty corpus (of at most \<^verbatim>\<open>INT_MAX\<close> bytes, so that no count
  overflows): the counting loop stays inside the vector, the rewrite leaves the sequence
  non-empty, and the loop of \<^verbatim>\<open>train\<close> ends when the vocabulary is full or no pair is left.
\<close>

lemma bump_returns:
  "\<forall>kc\<in>set cs. snd kc \<le> n \<Longrightarrow> n < int_max \<Longrightarrow> 0 \<le> n \<Longrightarrow>
     \<exists>cs'. bump k cs = Inr cs' \<and> (\<forall>kc\<in>set cs'. snd kc \<le> n + 1)"
proof (induction cs)
  case Nil
  then show ?case by simp
next
  case (Cons kc rest)
  obtain k' c where kc: "kc = (k', c)" by (cases kc)
  from Cons.prems have "c \<le> n" by (simp add: kc)
  with Cons.prems have c: "c \<noteq> int_max" by simp
  from Cons obtain rest' where r: "bump k rest = Inr rest'" "\<forall>kc\<in>set rest'. snd kc \<le> n + 1"
    by auto
  show ?case
  proof (cases "k' = k")
    case True
    with c Cons.prems kc show ?thesis by fastforce
  next
    case False
    with r \<open>c \<le> n\<close> kc show ?thesis by simp
  qed
qed

lemma count_pairs_returns:
  "indices \<noteq> [] \<Longrightarrow> int (length indices) \<le> int_max \<Longrightarrow>
     \<forall>kc\<in>set cs. snd kc \<le> int i \<Longrightarrow> \<exists>cs'. count_pairs indices i cs = Inr cs'"
proof (induction indices i cs rule: count_pairs.induct)
  case (1 indices i counts)
  show ?case
  proof (cases "i < size_minus_one (length indices)")
    case False
    then show ?thesis by (simp add: count_pairs.simps [of indices i counts])
  next
    case True
    note guard = True
    with "1.prems"(1) have inside: "i + 1 < length indices"
      by (auto simp: size_minus_one_def)
    with "1.prems"(2) have "int i < int_max" by linarith
    with bump_returns [of counts "int i" "(indices ! i, indices ! (i + 1))"] "1.prems"(3)
    obtain counts1 where
      b: "bump (indices ! i, indices ! (i + 1)) counts = Inr counts1" and
      bound: "\<forall>kc\<in>set counts1. snd kc \<le> int i + 1"
      by auto
    from bound have bound': "\<forall>kc\<in>set counts1. snd kc \<le> int (i + 1)"
      by (simp add: add.commute)
    from "1.IH" [OF guard inside b "1.prems"(1,2) bound'] obtain cs' where
      "count_pairs indices (i + 1) counts1 = Inr cs'" by blast
    with guard inside b show ?thesis
      by (simp add: count_pairs.simps [of indices i counts])
  qed
qed

lemma most_frequent_pair_returns:
  assumes "iteration_order iter" and "indices \<noteq> []" and "int (length indices) \<le> int_max"
  shows "\<exists>r. most_frequent_pair iter indices = Inr r"
proof -
  from count_pairs_returns [OF assms(2,3), of "[]" 0] obtain counts where
    cp: "count_pairs indices 0 [] = Inr counts" by auto
  show ?thesis
  proof (cases "counts = []")
    case True
    with cp show ?thesis by (simp add: most_frequent_pair_def)
  next
    case False
    from assms(1) have "mset (iter counts) = mset counts" by (simp add: iteration_order_def)
    with False have "iter counts \<noteq> []" by (metis mset_zero_iff)
    then obtain first rest where "iter counts = first # rest" by (cases "iter counts") auto
    with cp False show ?thesis by (simp add: most_frequent_pair_def)
  qed
qed

lemma rewrite_spec_length: "length (rewrite_spec xs p n) \<le> length xs"
  by (induction xs p n rule: rewrite_spec.induct) auto

lemma rewrite_spec_nonempty: "xs \<noteq> [] \<Longrightarrow> rewrite_spec xs p n \<noteq> []"
  by (induction xs p n rule: rewrite_spec.induct) auto

lemma train_loop_returns:
  "iteration_order iter \<Longrightarrow> indices \<noteq> [] \<Longrightarrow> int (length indices) \<le> int_max \<Longrightarrow>
     \<exists>r. train_loop iter stop_early s indices = Inr r"
proof (induction iter stop_early s indices rule: train_loop.induct)
  case (1 iter stop_early s indices)
  show ?case
  proof (cases "vocab_size s < max_vocab_size s")
    case False
    then show ?thesis by (simp add: train_loop.simps [of iter stop_early s indices])
  next
    case True
    note below = True
    from most_frequent_pair_returns [OF "1.prems"] obtain pair cnt where
      mfp: "most_frequent_pair iter indices = Inr (pair, cnt)" by force
    show ?thesis
    proof (cases "(fst pair = - 1 \<and> snd pair = - 1) \<or> (stop_early \<and> cnt = 1)")
      case True
      with below mfp show ?thesis
        by (auto simp: train_loop.simps [of iter stop_early s indices])
    next
      case False
      then have c1: "\<not> (fst pair = - 1 \<and> snd pair = - 1)" and c2: "\<not> (stop_early \<and> cnt = 1)"
        by auto
      have ne: "merge_pair indices pair (next_id s) \<noteq> []"
        using "1.prems"(2) by (simp add: merge_pair_rewrite rewrite_spec_nonempty)
      have len: "int (length (merge_pair indices pair (next_id s))) \<le> int_max"
        using "1.prems"(3) rewrite_spec_length [of indices pair "next_id s"]
        by (simp add: merge_pair_rewrite)
      from "1.IH" [OF below mfp refl c1 c2 "1.prems"(1) ne len] obtain r where
        "train_loop iter stop_early (fst (record_merge s pair))
           (merge_pair indices pair (next_id s)) = Inr r" by blast
      with below mfp c1 c2 show ?thesis
        by (cases r) (simp add: train_loop.simps [of iter stop_early s indices])
    qed
  qed
qed

lemma train_returns:
  "iteration_order iter \<Longrightarrow> input \<noteq> [] \<Longrightarrow> int (length input) \<le> int_max \<Longrightarrow>
     \<exists>s' events. train iter s input stop_early = Inr (s', events)"
  using train_loop_returns [of iter "string_to_byte input" stop_early s]
  by (auto simp: train_def string_to_byte_def)

end
